theory Spec2Isabelle
  imports Complex_Main "HOL-Library.Multiset" "HOL-Library.Log_Nat"
begin

section \<open>Bounded concurrency runner (route.ts, processConcurrently)\<close>

text \<open>
  A settled promise is a value of \<open>'e + 'r\<close>: \<open>Inl reason\<close> is a rejection,
  \<open>Inr value\<close> a fulfilment. The processor is given by the outcome it settles with on each
  item. Array.prototype.slice follows ECMAScript: a negative index counts from the end, and
  both indices are clamped into the array.
\<close>

definition slice :: "'a list \<Rightarrow> int \<Rightarrow> int \<Rightarrow> 'a list" where
  "slice xs start stop =
     (let len = int (length xs);
          k = (if start < 0 then max (len + start) 0 else min start len);
          final = (if stop < 0 then max (len + stop) 0 else min stop len)
      in take (nat (final - k)) (drop (nat k) xs))"

text \<open>
  What the runner does that can be observed from outside: \<open>Launch x\<close> is the call
  \<open>processor(x)\<close> made by \<open>batch.map(processor)\<close>; \<open>AllSettled\<close> is the
  return of \<open>await Promise.allSettled(...)\<close>, when every promise of the batch has settled.
\<close>

datatype 'a event = Launch 'a | AllSettled

record ('a, 'e, 'r) runner =
  results :: "'r list"
  warnings :: "'e list"
  events :: "'a event list"

text \<open>The inner loop over \<open>batchResults\<close>: push a fulfilled value, warn about a rejection.\<close>

fun extractResults :: "('e + 'r) list \<Rightarrow> ('a, 'e, 'r) runner \<Rightarrow> ('a, 'e, 'r) runner" where
  "extractResults [] st = st"
| "extractResults (Inr v # rs) st = extractResults rs (st\<lparr>results := results st @ [v]\<rparr>)"
| "extractResults (Inl reason # rs) st = extractResults rs (st\<lparr>warnings := warnings st @ [reason]\<rparr>)"

text \<open>
  One pass of the outer loop body: slice the batch, call the processor on every item of it,
  wait for all of them, then extract. \<open>Promise.allSettled\<close> keeps the order of its input.
\<close>

definition runBatch ::
  "('a \<Rightarrow> 'e + 'r) \<Rightarrow> 'a list \<Rightarrow> ('a, 'e, 'r) runner \<Rightarrow> ('a, 'e, 'r) runner" where
  "runBatch processor batch st =
     (let batchResults = map processor batch
      in extractResults batchResults (st\<lparr>events := events st @ map Launch batch @ [AllSettled]\<rparr>))"

text \<open>
  The outer loop \<open>for (let i = 0; i < items.length; i += maxConcurrency)\<close>. With
  \<open>maxConcurrency \<le> 0\<close> and a non-empty array the index never reaches the length and the
  loop does not end: the value is \<open>None\<close>.
\<close>

partial_function (option) processLoop ::
  "('a \<Rightarrow> 'e + 'r) \<Rightarrow> 'a list \<Rightarrow> int \<Rightarrow> int \<Rightarrow> ('a, 'e, 'r) runner
     \<Rightarrow> ('a, 'e, 'r) runner option" where
  "processLoop processor items maxConcurrency i st =
     (if i < int (length items)
      then processLoop processor items maxConcurrency (i + maxConcurrency)
             (runBatch processor (slice items i (i + maxConcurrency)) st)
      else Some st)"

declare processLoop.simps [code]

definition processConcurrently ::
  "'a list \<Rightarrow> ('a \<Rightarrow> 'e + 'r) \<Rightarrow> int \<Rightarrow> ('a, 'e, 'r) runner option" where
  "processConcurrently items processor maxConcurrency =
     processLoop processor items maxConcurrency 0 \<lparr>results = [], warnings = [], events = []\<rparr>"

text \<open>Reading the event log: the batches in launch order, and the operations in flight.\<close>

fun launched_batches :: "'a event list \<Rightarrow> 'a list list" where
  "launched_batches [] = []"
| "launched_batches (AllSettled # es) = [] # launched_batches es"
| "launched_batches (Launch x # es) =
     (case launched_batches es of [] \<Rightarrow> [[x]] | b # bs \<Rightarrow> (x # b) # bs)"

fun in_flight_after :: "nat \<Rightarrow> 'a event list \<Rightarrow> nat" where
  "in_flight_after n [] = n"
| "in_flight_after n (Launch x # es) = in_flight_after (Suc n) es"
| "in_flight_after n (AllSettled # es) = in_flight_after 0 es"

definition in_flight :: "'a event list \<Rightarrow> nat" where
  "in_flight es = in_flight_after 0 es"

definition successes :: "('a \<Rightarrow> 'e + 'r) \<Rightarrow> 'a list \<Rightarrow> 'r list" where
  "successes processor xs =
     List.map_filter (\<lambda>x. case processor x of Inr v \<Rightarrow> Some v | Inl _ \<Rightarrow> None) xs"

definition failures :: "('a \<Rightarrow> 'e + 'r) \<Rightarrow> 'a list \<Rightarrow> 'e list" where
  "failures processor xs =
     List.map_filter (\<lambda>x. case processor x of Inl e \<Rightarrow> Some e | Inr _ \<Rightarrow> None) xs"


section \<open>Values exchanged with the outside\<close>

text \<open>
  A JavaScript number that is passed through, never computed with: a finite value (every
  finite double is a rational), or one of the three special values. JSON values are what the
  vector store answers with; an object is its list of properties (the first binding of a name
  is the property). A thrown or rejected \<open>Error\<close> is its message.
\<close>

datatype number = Finite rat | NaN | PosInfinity | NegInfinity

datatype json =
    JNull
  | JBool bool
  | JNum number
  | JStr string
  | JArr "json list"
  | JObj "(string \<times> json) list"

datatype js_error = Error string

fun message :: "js_error \<Rightarrow> string" where
  "message (Error m) = m"



section \<open>Arithmetic on doubles\<close>

text \<open>
  The polling loop computes with JavaScript numbers, which are IEEE 754 doubles: after every
  multiplication and addition the exact result is rounded to the nearest value with 53
  significant bits, a tie going to the even one. A double is given here by the rational it
  stands for. \<open>binade x\<close> is the exponent \<open>e\<close> with \<open>2 ^ e \<le> |x| < 2 ^ (e + 1)\<close>, so the
  doubles around \<open>x\<close> are the multiples of \<open>2 ^ (e - 52)\<close>. The exponent range is not
  bounded: the values of the loop lie between 2000 and 10 ^ 6, far from overflow and from the
  subnormal numbers.
\<close>

definition roundTiesToEven :: "rat \<Rightarrow> int" where
  "roundTiesToEven q =
     (let f = \<lfloor>q\<rfloor>; d = q - of_int f
      in if d < 1 / 2 then f
         else if 1 / 2 < d then f + 1
         else if even f then f else f + 1)"

definition binade :: "rat \<Rightarrow> int" where
  "binade x =
     (let a = \<bar>fst (quotient_of x)\<bar>; b = snd (quotient_of x); e = bitlen a - bitlen b
      in if 2 powi e \<le> \<bar>x\<bar> then e else e - 1)"

definition toDouble :: "rat \<Rightarrow> rat" where
  "toDouble x =
     (if x = 0 then 0
      else let ulp = 2 powi (binade x - 52)
           in of_int (roundTiesToEven (x / ulp)) * ulp)"

text \<open>The operators \<open>*\<close> and \<open>+\<close> on two doubles. A decimal literal such as \<open>1.2\<close> is the
  double nearest to it, \<open>toDouble 1.2\<close>.\<close>

definition mulDouble :: "rat \<Rightarrow> rat \<Rightarrow> rat" where
  "mulDouble a b = toDouble (a * b)"

definition addDouble :: "rat \<Rightarrow> rat \<Rightarrow> rat" where
  "addDouble a b = toDouble (a + b)"

section \<open>The index route (route.ts)\<close>

text \<open>Of a \<open>FileNode\<close> the route reads \<open>path\<close>, \<open>extension\<close> and \<open>content\<close> only;
  a field marked optional in the interface is an \<open>option\<close>.\<close>

record FileNode =
  path :: string
  extension :: "string option"
  content :: "string option"

record Chunk =
  chunk_content :: string
  chunk_startLine :: "number option"
  chunk_endLine :: "number option"
  chunk_type :: "string option"

record EmbeddingRecord =
  rec_content :: string
  file_path :: string
  embedding :: "number list"
  sessionId :: string
  startLine :: "number option"
  endLine :: "number option"
  chunkType :: "string option"

record describe_response =
  index_descriptions :: "string list option"

text \<open>
  Every call that leaves the process towards the vector store, and every sleep, in the order
  it is made. \<open>CreateIndex n\<close> carries the \<open>nlist\<close> written into \<open>extra_params.params\<close>.
\<close>

datatype effect =
    HasCollection
  | CreateCollection
  | Insert "EmbeddingRecord list"
  | DescribeIndex
  | CreateIndex int
  | GetIndexState
  | Sleep rat

fun is_Insert :: "effect \<Rightarrow> bool" where
  "is_Insert (Insert b) = True"
| "is_Insert _ = False"

fun is_DescribeIndex :: "effect \<Rightarrow> bool" where
  "is_DescribeIndex DescribeIndex = True"
| "is_DescribeIndex _ = False"

fun is_CreateIndex :: "effect \<Rightarrow> bool" where
  "is_CreateIndex (CreateIndex n) = True"
| "is_CreateIndex _ = False"

fun is_GetIndexState :: "effect \<Rightarrow> bool" where
  "is_GetIndexState GetIndexState = True"
| "is_GetIndexState _ = False"

fun is_Sleep :: "effect \<Rightarrow> bool" where
  "is_Sleep (Sleep t) = True"
| "is_Sleep _ = False"

fun is_HasCollection :: "effect \<Rightarrow> bool" where
  "is_HasCollection HasCollection = True"
| "is_HasCollection _ = False"

fun is_CreateCollection :: "effect \<Rightarrow> bool" where
  "is_CreateCollection CreateCollection = True"
| "is_CreateCollection _ = False"

definition calls :: "(effect \<Rightarrow> bool) \<Rightarrow> effect list \<Rightarrow> nat" where
  "calls kind tr = length (filter kind tr)"

text \<open>
  The collaborators of the route: the chunker, the embedding service, the vector store and the
  clock. The store's answer to a call is given by how many calls of that kind came before it;
  \<open>Inl\<close> is a rejected promise. \<open>generateEmbeddings\<close> answers with the \<open>embedding\<close>
  fields of \<open>response.data\<close>, or \<open>None\<close> when \<open>data\<close> is missing. \<open>now k\<close> is what
  \<open>Date.now()\<close> gives when it is read for the \<open>k\<close>-th time (from 0) in a request, and
  \<open>development\<close> says whether \<open>NODE_ENV\<close> is \<open>development\<close>.
\<close>

record world =
  generateChunks :: "string \<Rightarrow> string \<Rightarrow> js_error + Chunk list"
  generateEmbeddings :: "string \<Rightarrow> js_error + number list list option"
  hasCollection :: "nat \<Rightarrow> js_error + bool"
  createCollection :: "nat \<Rightarrow> js_error + unit"
  insertRows :: "nat \<Rightarrow> js_error + unit"
  describeIndex :: "nat \<Rightarrow> js_error + describe_response"
  createIndex :: "nat \<Rightarrow> js_error + unit"
  getIndexState :: "nat \<Rightarrow> js_error + string"
  now :: "nat \<Rightarrow> int"
  development :: bool

definition MAX_INDEX_WAIT_TIME :: rat where
  "MAX_INDEX_WAIT_TIME = 10 * 60 * 1000"

definition POLLING_INTERVAL :: rat where
  "POLLING_INTERVAL = 2000"

definition MAX_CONCURRENT_FILES :: int where
  "MAX_CONCURRENT_FILES = 5"

definition MAX_CONCURRENT_EMBEDDINGS :: int where
  "MAX_CONCURRENT_EMBEDDINGS = 10"

definition MAX_RETRIES :: nat where
  "MAX_RETRIES = 30"

subsection \<open>processCodeFileContent\<close>

text \<open>\<open>processChunk\<close> catches every failure of the embedding call and answers \<open>null\<close>
  (\<open>None\<close>), so its promise is always fulfilled.\<close>

definition processChunk ::
  "world \<Rightarrow> string \<Rightarrow> string \<Rightarrow> Chunk \<Rightarrow> js_error + EmbeddingRecord option" where
  "processChunk w filePath sid chunk =
     (case generateEmbeddings w (chunk_content chunk) of
        Inl e \<Rightarrow> Inr None
      | Inr None \<Rightarrow> Inr None
      | Inr (Some []) \<Rightarrow> Inr None
      | Inr (Some (emb # _)) \<Rightarrow>
          Inr (Some \<lparr>rec_content = chunk_content chunk, file_path = filePath, embedding = emb,
                     sessionId = sid, startLine = chunk_startLine chunk,
                     endLine = chunk_endLine chunk, chunkType = chunk_type chunk\<rparr>))"

text \<open>The result is \<open>None\<close> only if the runner does not return.\<close>

definition processCodeFileContent ::
  "world \<Rightarrow> FileNode \<Rightarrow> string \<Rightarrow> EmbeddingRecord list option" where
  "processCodeFileContent w file sid =
     (let fileContent = (case content file of None \<Rightarrow> [] | Some c \<Rightarrow> c);
          filePath = path file;
          fileExtension = (case extension file of None \<Rightarrow> [] | Some e \<Rightarrow> e)
      in case generateChunks w fileContent fileExtension of
           Inl e \<Rightarrow> Some []
         | Inr codeChunks \<Rightarrow>
             if length codeChunks = 0 then Some []
             else (case processConcurrently codeChunks (processChunk w filePath sid)
                          MAX_CONCURRENT_EMBEDDINGS of
                     None \<Rightarrow> None
                   | Some st \<Rightarrow>
                       let validResults = List.map_filter (\<lambda>result. result) (results st)
                       in Some validResults))"

subsection \<open>createIndexIfNeeded\<close>

definition nlist :: "int \<Rightarrow> int" where
  "nlist totalEmbeddings = min 128 (max 4 \<lceil>(of_int totalEmbeddings :: rat) / 2\<rceil>)"

text \<open>The polling loop, with its three variables and the effects so far as arguments.
  \<open>Sleep t\<close> is \<open>setTimeout(resolve, t)\<close> awaited, with the delay as it is passed.\<close>

function pollIndexState ::
  "world \<Rightarrow> rat \<Rightarrow> rat \<Rightarrow> nat \<Rightarrow> effect list \<Rightarrow> (js_error + bool) \<times> effect list" where
  "pollIndexState w elapsedTime pollInterval retryCount tr =
     (if elapsedTime < MAX_INDEX_WAIT_TIME \<and> retryCount < MAX_RETRIES
      then (case getIndexState w (calls is_GetIndexState tr) of
              Inl e \<Rightarrow> (Inl e, tr @ [GetIndexState])
            | Inr indexState \<Rightarrow>
                if indexState = ''Finished'' \<or> indexState = ''IndexStateFinished''
                then (Inr True, tr @ [GetIndexState])
                else if indexState = ''Failed'' \<or> indexState = ''IndexStateFailed''
                then (Inl (Error ''Index creation failed''), tr @ [GetIndexState])
                else pollIndexState w (addDouble elapsedTime pollInterval)
                       (min (mulDouble pollInterval (toDouble 1.2)) 10000) (retryCount + 1)
                       (tr @ [GetIndexState, Sleep pollInterval]))
      else (Inl (Error ''Index creation timed out after 600 seconds or exceeded 30 retries.''),
            tr))"
  by pat_completeness auto
termination
  by (relation "measure (\<lambda>(w, elapsedTime, pollInterval, retryCount, tr). MAX_RETRIES - retryCount)")
    auto

declare pollIndexState.simps [simp del]

text \<open>A rejected \<open>describeIndex\<close> is caught and read as "no index". The outer
  \<open>try/catch\<close> logs and rethrows, so an error leaves as it came.\<close>

definition createIndexIfNeeded ::
  "world \<Rightarrow> int \<Rightarrow> effect list \<Rightarrow> (js_error + bool) \<times> effect list" where
  "createIndexIfNeeded w totalEmbeddings tr =
     (let indexInfo = (case describeIndex w (calls is_DescribeIndex tr) of
                         Inl e \<Rightarrow> None
                       | Inr info \<Rightarrow> Some info);
          tr1 = tr @ [DescribeIndex]
      in if (case indexInfo of
               None \<Rightarrow> False
             | Some info \<Rightarrow> (case index_descriptions info of
                                None \<Rightarrow> False
                              | Some ds \<Rightarrow> length ds > 0))
         then (Inr True, tr1)
         else (case createIndex w (calls is_CreateIndex tr1) of
                 Inl e \<Rightarrow> (Inl e, tr1 @ [CreateIndex (nlist totalEmbeddings)])
               | Inr u \<Rightarrow>
                   pollIndexState w 0 POLLING_INTERVAL 0
                     (tr1 @ [CreateIndex (nlist totalEmbeddings)])))"


subsection \<open>getMilvusClient (lib/milvus.ts)\<close>

text \<open>Creates the collection when the store says it is missing; any rejection is rethrown.\<close>

definition getMilvusClient :: "world \<Rightarrow> effect list \<Rightarrow> (js_error + unit) \<times> effect list" where
  "getMilvusClient w tr =
     (case hasCollection w (calls is_HasCollection tr) of
        Inl e \<Rightarrow> (Inl e, tr @ [HasCollection])
      | Inr v \<Rightarrow>
          if \<not> v
          then (case createCollection w (calls is_CreateCollection tr) of
                  Inl e \<Rightarrow> (Inl e, tr @ [HasCollection, CreateCollection])
                | Inr u \<Rightarrow> (Inr (), tr @ [HasCollection, CreateCollection]))
          else (Inr (), tr @ [HasCollection]))"

subsection \<open>The insert step of POST\<close>

text \<open>The loop \<open>for (let i = 0; i < embeddingsToInsert.length; i += 1000)\<close>; a rejected
  insert leaves the loop with its error.\<close>

function insertLoop ::
  "world \<Rightarrow> EmbeddingRecord list \<Rightarrow> nat \<Rightarrow> effect list \<Rightarrow> (js_error + unit) \<times> effect list" where
  "insertLoop w embeddingsToInsert i tr =
     (if i < length embeddingsToInsert
      then (let batch = slice embeddingsToInsert (int i) (int i + 1000)
            in case insertRows w (calls is_Insert tr) of
                 Inl e \<Rightarrow> (Inl e, tr @ [Insert batch])
               | Inr u \<Rightarrow> insertLoop w embeddingsToInsert (i + 1000) (tr @ [Insert batch]))
      else (Inr (), tr))"
  by pat_completeness auto
termination
  by (relation "measure (\<lambda>(w, embeddingsToInsert, i, tr). length embeddingsToInsert - i)") auto

declare insertLoop.simps [simp del]

definition insertEmbeddings ::
  "world \<Rightarrow> EmbeddingRecord list \<Rightarrow> effect list \<Rightarrow> (js_error + unit) \<times> effect list" where
  "insertEmbeddings w embeddingsToInsert tr =
     (if length embeddingsToInsert > 1000
      then insertLoop w embeddingsToInsert 0 tr
      else (case insertRows w (calls is_Insert tr) of
              Inl e \<Rightarrow> (Inl e, tr @ [Insert embeddingsToInsert])
            | Inr u \<Rightarrow> (Inr (), tr @ [Insert embeddingsToInsert])))"

subsection \<open>POST\<close>

text \<open>
  The request is what \<open>req.json()\<close> gives: a rejection, or a body whose \<open>sessionId\<close> and
  \<open>codeFiles\<close> may be missing (\<open>codeFiles = None\<close> also stands for a value that is not an
  array). The response is the HTTP status and the properties of the JSON body, in the order
  written; a property whose value is \<open>undefined\<close> is not serialised. On the way to the
  success response the clock is read six times: readings 2, 3 and 4 are only logged.
\<close>

record index_request =
  req_sessionId :: "string option"
  req_codeFiles :: "FileNode list option"

record response =
  status :: nat
  body :: "(string \<times> json) list"

definition num :: "int \<Rightarrow> json" where
  "num n = JNum (Finite (of_int n))"

text \<open>The \<open>catch\<close> of POST.\<close>

definition errorResponse :: "world \<Rightarrow> js_error \<Rightarrow> response" where
  "errorResponse w e =
     \<lparr>status = 500,
      body = [(''success'', JBool False), (''message'', JStr (message e))]
             @ (if development w then [(''error'', JStr (message e))] else [])\<rparr>"

text \<open>Runs the files through the runner and flattens: \<open>allEmbeddings.flat()\<close>. \<open>None\<close>
  when the runner, or the processing of a file, does not return.\<close>

definition allEmbeddings :: "world \<Rightarrow> string \<Rightarrow> FileNode list \<Rightarrow> EmbeddingRecord list option" where
  "allEmbeddings w sid codeFiles =
     (case processConcurrently codeFiles
             (\<lambda>file. (Inr (processCodeFileContent w file sid)
                      :: js_error + EmbeddingRecord list option))
             MAX_CONCURRENT_FILES of
        None \<Rightarrow> None
      | Some st \<Rightarrow> (case those (results st) of
                      None \<Rightarrow> None
                    | Some perFile \<Rightarrow> Some (concat perFile)))"

definition invalidRequest :: response where
  "invalidRequest =
     \<lparr>status = 400,
      body = [(''error'', JStr ''Invalid request parameters''),
              (''details'', JStr ''SessionId and codeFiles array are required'')]\<rparr>"

definition POST :: "world \<Rightarrow> js_error + index_request \<Rightarrow> (response \<times> effect list) option" where
  "POST w req =
     (let startTime = now w 0 in
      case req of
        Inl e \<Rightarrow> Some (errorResponse w e, [])
      | Inr parsed \<Rightarrow>
         (case (req_sessionId parsed, req_codeFiles parsed) of
            (None, _) \<Rightarrow> Some (invalidRequest, [])
          | (_, None) \<Rightarrow> Some (invalidRequest, [])
          | (Some sid, Some codeFiles) \<Rightarrow>
             if sid = [] then Some (invalidRequest, [])
             else
              (case allEmbeddings w sid codeFiles of
                 None \<Rightarrow> None
               | Some embeddingsToInsert \<Rightarrow>
                  (let totalProcessingTime = now w 1 - startTime in
                   if length embeddingsToInsert = 0 then
                     Some (\<lparr>status = 400,
                             body = [(''message'', JStr ''No embeddings could be generated''),
                                     (''details'', JStr ''Check file contents and embedding generation''),
                                     (''processingTime'', num totalProcessingTime)]\<rparr>,
                           [])
                   else
                    (case getMilvusClient w [] of
                       (Inl e, tr) \<Rightarrow> Some (errorResponse w e, tr)
                     | (Inr u, tr) \<Rightarrow>
                        (case insertEmbeddings w embeddingsToInsert tr of
                           (Inl e, tr2) \<Rightarrow> Some (errorResponse w e, tr2)
                         | (Inr u2, tr2) \<Rightarrow>
                            (case createIndexIfNeeded w (int (length embeddingsToInsert)) tr2 of
                               (Inl e, tr3) \<Rightarrow> Some (errorResponse w e, tr3)
                             | (Inr b, tr3) \<Rightarrow>
                                Some (\<lparr>status = 200,
                                        body = [(''success'', JBool True),
                                                (''message'', JStr ''Codebase indexed successfully.''),
                                                (''totalChunks'', num (int (length embeddingsToInsert))),
                                                (''processingTime'', num totalProcessingTime),
                                                (''indexingTime'',
                                                 num (now w 5 - startTime - totalProcessingTime))]\<rparr>,
                                      tr3))))))))"


section \<open>Searching the vector store\<close>

text \<open>
  What both clients send to \<open>client.search\<close> and what comes back: \<open>results\<close> is the
  array \<open>searchResult.results\<close>, or \<open>None\<close> when the property is missing. The store is
  any function from the request to its answer.
\<close>

record search_request =
  collection_name :: string
  vectors :: "number list list"
  limit :: number
  output_fields :: "string list"
  filter_expr :: string
  metric_type :: "string option"



subsection \<open>ZillizClient.searchVectors\<close>

record RawZillizHit =
  hit_id :: number
  hit_content :: string
  filePath :: string
  hit_sessionId :: string
  score :: number
  lineNumber :: number


definition zillizSearchRequest :: "number list \<Rightarrow> string \<Rightarrow> number \<Rightarrow> search_request" where
  "zillizSearchRequest vector sid limitArg =
     \<lparr>collection_name = ''code_embeddings'',
      vectors = [vector],
      limit = limitArg,
      output_fields = [''content'', ''filePath'', ''sessionId'', ''lineNumber'', ''score'', ''id''],
      filter_expr = ''sessionId == \"'' @ sid @ ''\"'',
      metric_type = Some ''COSINE''\<rparr>"



subsection \<open>searchVectors (lib/milvus.ts)\<close>



definition milvusSearchRequest :: "number list \<Rightarrow> string \<Rightarrow> number \<Rightarrow> search_request" where
  "milvusSearchRequest queryEmbedding sid limitArg =
     \<lparr>collection_name = ''code_embeddings'',
      vectors = [queryEmbedding],
      limit = limitArg,
      output_fields = [''id'', ''content'', ''file_path'', ''embedding'', ''sessionId''],
      filter_expr = ''sessionId == \"'' @ sid @ ''\"'',
      metric_type = None\<rparr>"




section \<open>Notions used to state the properties\<close>

text \<open>Cutting a list into consecutive pieces of length \<open>n\<close>, the last one possibly
  shorter; and the event log of launching each piece and waiting for it.\<close>

function chunks :: "nat \<Rightarrow> 'a list \<Rightarrow> 'a list list" where
  "chunks n xs = (if n = 0 \<or> xs = [] then [] else take n xs # chunks n (drop n xs))"
  by pat_completeness auto
termination
  by (relation "measure (\<lambda>(n, xs). length xs)") auto

declare chunks.simps [simp del]

definition encode :: "'a list list \<Rightarrow> 'a event list" where
  "encode bs = concat (map (\<lambda>b. map Launch b @ [AllSettled]) bs)"

text \<open>The values of \<open>pollInterval\<close> and \<open>elapsedTime\<close> at the \<open>k\<close>-th pass of the loop,
  by the loop's own assignments; the effects of the polling rounds \<open>a, ..., b - 1\<close>; and what
  the store can answer.\<close>

primrec pollDelay :: "nat \<Rightarrow> rat" where
  "pollDelay 0 = 2000"
| "pollDelay (Suc k) = min (mulDouble (pollDelay k) (toDouble 1.2)) 10000"

primrec pollElapsed :: "nat \<Rightarrow> rat" where
  "pollElapsed 0 = 0"
| "pollElapsed (Suc k) = addDouble (pollElapsed k) (pollDelay k)"

definition polls :: "nat \<Rightarrow> nat \<Rightarrow> effect list" where
  "polls a b = concat (map (\<lambda>k. [GetIndexState, Sleep (pollDelay k)]) [a..<b])"

definition stillBuilding :: "js_error + string \<Rightarrow> bool" where
  "stillBuilding answer =
     (case answer of
        Inl e \<Rightarrow> False
      | Inr indexState \<Rightarrow>
          indexState \<noteq> ''Finished'' \<and> indexState \<noteq> ''IndexStateFinished''
          \<and> indexState \<noteq> ''Failed'' \<and> indexState \<noteq> ''IndexStateFailed'')"

definition reportsIndex :: "js_error + describe_response \<Rightarrow> bool" where
  "reportsIndex answer =
     (case answer of
        Inl e \<Rightarrow> False
      | Inr info \<Rightarrow> (case index_descriptions info of None \<Rightarrow> False | Some ds \<Rightarrow> ds \<noteq> []))"

definition timedOut :: js_error where
  "timedOut = Error ''Index creation timed out after 600 seconds or exceeded 30 retries.''"

text \<open>Stores to run the functions on: one whose index never leaves the building state, one
  whose third state check reports a failure, and one that finishes the index at once and
  reports it from the second describe call on.\<close>

definition idleWorld :: world where
  "idleWorld =
     \<lparr>generateChunks = (\<lambda>fileContent fileExtension. Inr []),
      generateEmbeddings = (\<lambda>text. Inr None),
      hasCollection = (\<lambda>k. Inr True),
      createCollection = (\<lambda>k. Inr ()),
      insertRows = (\<lambda>k. Inr ()),
      describeIndex = (\<lambda>k. Inr \<lparr>index_descriptions = Some []\<rparr>),
      createIndex = (\<lambda>k. Inr ()),
      getIndexState = (\<lambda>k. Inr ''InProgress''),
      now = (\<lambda>k. 1000 * int k),
      development = False\<rparr>"

definition failingWorld :: world where
  "failingWorld =
     idleWorld\<lparr>getIndexState := (\<lambda>k. if k = 2 then Inr ''Failed'' else Inr ''InProgress'')\<rparr>"

definition readyWorld :: world where
  "readyWorld =
     idleWorld\<lparr>describeIndex :=
                 (\<lambda>k. if k = 0 then Inr \<lparr>index_descriptions = Some []\<rparr>
                      else Inr \<lparr>index_descriptions = Some [''embedding_index'']\<rparr>),
               getIndexState := (\<lambda>k. Inr ''Finished'')\<rparr>"

text \<open>A store whose describe call is always rejected and whose index is finished at the
  first state check.\<close>

definition blindWorld :: world where
  "blindWorld =
     idleWorld\<lparr>describeIndex := (\<lambda>k. Inl (Error ''describe failed'')),
               getIndexState := (\<lambda>k. Inr ''Finished'')\<rparr>"

text \<open>A store that reports no index, rejects the first creation call and accepts the second,
  after which the index is finished at once; and one whose seventh state check reports a failure.\<close>

definition rejectOnceWorld :: world where
  "rejectOnceWorld =
     idleWorld\<lparr>createIndex := (\<lambda>k. if k = 0 then Inl (Error ''create failed'') else Inr ()),
               getIndexState := (\<lambda>k. Inr ''Finished'')\<rparr>"

definition lateFailWorld :: world where
  "lateFailWorld =
     idleWorld\<lparr>getIndexState := (\<lambda>k. if k = 6 then Inr ''Failed'' else Inr ''InProgress'')\<rparr>"

text \<open>A record to insert.\<close>

definition sampleRecord :: EmbeddingRecord where
  "sampleRecord =
     \<lparr>rec_content = ''def f(): pass'', file_path = ''a.py'', embedding = [Finite 1, Finite 0],
      sessionId = ''s1'', startLine = None, endLine = None, chunkType = None\<rparr>"

text \<open>A file that yields no chunk: the chunker throws or answers with the empty list.\<close>

definition zeroChunks :: "world \<Rightarrow> FileNode \<Rightarrow> bool" where
  "zeroChunks w file =
     (case generateChunks w (case content file of None \<Rightarrow> [] | Some c \<Rightarrow> c)
             (case extension file of None \<Rightarrow> [] | Some e \<Rightarrow> e) of
        Inl e \<Rightarrow> True
      | Inr codeChunks \<Rightarrow> codeChunks = [])"

text \<open>
  The filter the clients mean to send is an equality on the session field,
  \<open>sessionId == "t"\<close>. \<open>filterSession\<close> reads the \<open>t\<close> off an expression of that form in
  which \<open>t\<close> has no double quote and no backslash; any other expression is not of the form,
  and what it selects is the store's business. A store applies the filter it is given when,
  for every request whose filter is such an equality, every row of the first result list of
  its answer has that session.
\<close>

definition plainId :: "string \<Rightarrow> bool" where
  "plainId t = (CHR 0x22 \<notin> set t \<and> CHR 0x5C \<notin> set t)"

definition filterSession :: "string \<Rightarrow> string option" where
  "filterSession expr =
     (let opening = ''sessionId == \"''; t = butlast (drop (length opening) expr)
      in if length opening < length expr \<and> take (length opening) expr = opening
            \<and> last expr = CHR 0x22 \<and> plainId t
         then Some t else None)"






section \<open>Properties of the runner\<close>

lemma slice_take_drop:
  "0 \<le> i \<Longrightarrow> 0 \<le> n \<Longrightarrow> slice xs i (i + n) = take (nat n) (drop (nat i) xs)"
  by (auto simp: slice_def Let_def min_def nat_diff_distrib' nat_add_distrib take_all_iff)

lemma extractResults_fields:
  "results (extractResults rs st) = results st @ List.map_filter (\<lambda>r. case r of Inr v \<Rightarrow> Some v | Inl _ \<Rightarrow> None) rs"
  "warnings (extractResults rs st) = warnings st @ List.map_filter (\<lambda>r. case r of Inl e \<Rightarrow> Some e | Inr _ \<Rightarrow> None) rs"
  "events (extractResults rs st) = events st"
  by (induction rs st rule: extractResults.induct) (simp_all add: List.map_filter_simps)

lemma map_filter_map: "List.map_filter f (map g xs) = List.map_filter (\<lambda>x. f (g x)) xs"
  by (induction xs) (simp_all add: List.map_filter_simps split: option.splits)

lemma runBatch_fields:
  "results (runBatch p b st) = results st @ successes p b"
  "warnings (runBatch p b st) = warnings st @ failures p b"
  "events (runBatch p b st) = events st @ map Launch b @ [AllSettled]"
  by (simp_all add: runBatch_def extractResults_fields successes_def failures_def map_filter_map)

lemma map_filter_append: "List.map_filter f (xs @ ys) = List.map_filter f xs @ List.map_filter f ys"
  by (simp add: map_filter_def)

lemma fold_runBatch_fields:
  "results (fold (runBatch p) bs st) = results st @ successes p (concat bs)"
  "warnings (fold (runBatch p) bs st) = warnings st @ failures p (concat bs)"
  "events (fold (runBatch p) bs st) = events st @ encode bs"
  by (induction bs arbitrary: st; simp add: runBatch_fields successes_def failures_def map_filter_append encode_def)+

lemma processLoop_chunks:
  "1 \<le> mc \<Longrightarrow> 0 \<le> i \<Longrightarrow>
   processLoop p items mc i st = Some (fold (runBatch p) (chunks (nat mc) (drop (nat i) items)) st)"
proof (induction "length items - nat i" arbitrary: i st rule: less_induct)
  case less
  show ?case
  proof (cases "i < int (length items)")
    case True
    have lt: "length items - nat (i + mc) < length items - nat i"
      using True less.prems by linarith
    have nz: "drop (nat i) items \<noteq> []" using True less.prems by simp
    have d: "drop (nat mc) (drop (nat i) items) = drop (nat (i + mc)) items"
      using less.prems by (simp add: nat_add_distrib add.commute)
    have c: "chunks (nat mc) (drop (nat i) items)
          = take (nat mc) (drop (nat i) items) # chunks (nat mc) (drop (nat (i + mc)) items)"
      using nz less.prems d by (subst chunks.simps) simp
    have "processLoop p items mc i st
        = processLoop p items mc (i + mc) (runBatch p (slice items i (i + mc)) st)"
      using True by (subst processLoop.simps) simp
    also have "\<dots> = Some (fold (runBatch p) (chunks (nat mc) (drop (nat (i + mc)) items))
                       (runBatch p (slice items i (i + mc)) st))"
      using less.hyps [OF lt] less.prems by simp
    finally show ?thesis
      using less.prems by (simp add: c slice_take_drop)
  next
    case False
    then have "drop (nat i) items = []" using less.prems by simp
    then show ?thesis using False
      by (subst processLoop.simps) (simp add: chunks.simps)
  qed
qed

lemma concat_chunks: "0 < n \<Longrightarrow> concat (chunks n xs) = xs"
  by (induction n xs rule: chunks.induct) (subst chunks.simps, auto)

lemma length_chunks:
  "0 < n \<Longrightarrow> map length (chunks n xs)
     = replicate (length xs div n) n @ (if length xs mod n = 0 then [] else [length xs mod n])"
proof (induction n xs rule: chunks.induct)
  case (1 n xs)
  show ?case
  proof (cases "xs = []")
    case True then show ?thesis by (subst chunks.simps) simp
  next
    case False
    show ?thesis
    proof (cases "n \<le> length xs")
      case True
      have "length xs div n = Suc ((length xs - n) div n)" using True 1(2)
        by (simp add: le_div_geq)
      moreover have "length xs mod n = (length xs - n) mod n" using True
        by (simp add: le_mod_geq)
      ultimately show ?thesis using 1 False True
        by (subst chunks.simps) (simp add: min_def)
    next
      case F: False
      then show ?thesis using 1 False
        by (subst chunks.simps) (simp add: chunks.simps [of n "[]"])
    qed
  qed
qed

lemma launched_batches_append_batch:
  "launched_batches (map Launch b @ AllSettled # es) = b # launched_batches es"
  by (induction b) simp_all

lemma launched_batches_encode: "launched_batches (encode bs) = bs"
  by (induction bs) (simp_all add: encode_def launched_batches_append_batch)

lemma in_flight_after_append:
  "in_flight_after m (xs @ ys) = in_flight_after (in_flight_after m xs) ys"
  by (induction m xs rule: in_flight_after.induct) simp_all

lemma in_flight_after_launches: "in_flight_after m (map Launch b) = m + length b"
  by (induction b arbitrary: m) simp_all

lemma in_flight_take_encode:
  "\<forall>b \<in> set bs. length b \<le> n \<Longrightarrow> in_flight_after 0 (take k (encode bs)) \<le> n"
proof (induction bs arbitrary: k)
  case Nil
  then show ?case by (simp add: encode_def)
next
  case (Cons b bs)
  have e: "encode (b # bs) = map Launch b @ [AllSettled] @ encode bs"
    by (simp add: encode_def)
  show ?case
  proof (cases "k \<le> length b")
    case True
    then have "take k (encode (b # bs)) = map Launch (take k b)"
      by (simp add: e take_map)
    then show ?thesis using Cons.prems True
      by (simp add: in_flight_after_launches)
  next
    case False
    then have "take k (encode (b # bs))
        = map Launch b @ [AllSettled] @ take (k - Suc (length b)) (encode bs)"
      by (simp add: e take_Cons')
    then show ?thesis using Cons
      by (simp add: in_flight_after_append)
  qed
qed

lemma chunks_length_le: "0 < n \<Longrightarrow> b \<in> set (chunks n xs) \<Longrightarrow> length b \<le> n"
proof -
  assume n: "0 < n" and b: "b \<in> set (chunks n xs)"
  then have "length b \<in> set (map length (chunks n xs))" by simp
  then show ?thesis using n
    by (auto simp: length_chunks split: if_splits intro: less_imp_le)
qed

lemma chunks_Nil: "chunks n [] = []"
  by (subst chunks.simps) simp

lemma replicate_one: "replicate 1 x = [x]"
  by (simp add: One_nat_def del: One_nat_def [symmetric])

lemma processConcurrently_run:
  "1 \<le> mc \<Longrightarrow> processConcurrently items p mc
     = Some (fold (runBatch p) (chunks (nat mc) items) \<lparr>results = [], warnings = [], events = []\<rparr>)"
  by (simp add: processConcurrently_def processLoop_chunks)

lemma successes_mem: "x \<in> set xs \<Longrightarrow> p x = Inr v \<Longrightarrow> v \<in> set (successes p xs)"
  by (induction xs) (auto simp: successes_def List.map_filter_simps split: sum.splits)

lemma length_successes_failures:
  "length (successes p xs) + length (failures p xs) = length xs"
  by (induction xs) (auto simp: successes_def failures_def List.map_filter_simps split: sum.splits)

text \<open>
  Claim C1. For every item sequence and every \<open>maxConcurrency \<ge> 1\<close> the runner returns;
  the batches it launched are the consecutive pieces of the items of size
  \<open>maxConcurrency\<close>, the last one possibly smaller; the event log is, batch after batch,
  the launch of every item of the batch followed by the return of \<open>Promise.allSettled\<close>,
  so after any prefix of the log at most \<open>maxConcurrency\<close> operations are in flight. For
  no items it returns no results and launches nothing. Seven items with ceiling five give
  batches of sizes five and two.
\<close>

theorem processConcurrently_batches:
  assumes "1 \<le> maxConcurrency"
  shows "\<exists>st. processConcurrently items processor maxConcurrency = Some st
    \<and> concat (launched_batches (events st)) = items
    \<and> map length (launched_batches (events st))
        = replicate (length items div nat maxConcurrency) (nat maxConcurrency)
          @ (if length items mod nat maxConcurrency = 0 then []
             else [length items mod nat maxConcurrency])
    \<and> events st = concat (map (\<lambda>b. map Launch b @ [AllSettled]) (launched_batches (events st)))
    \<and> (\<forall>k. in_flight (take k (events st)) \<le> nat maxConcurrency)
    \<and> (items = [] \<longrightarrow> results st = [] \<and> events st = [])
    \<and> (length items = 7 \<and> maxConcurrency = 5
          \<longrightarrow> map length (launched_batches (events st)) = [5, 2])"
proof -
  define n where "n = nat maxConcurrency"
  define bs where "bs = chunks n items"
  define st where "st = fold (runBatch processor) bs \<lparr>results = [], warnings = [], events = []\<rparr>"
  have n: "0 < n" using assms by (simp add: n_def)
  have run: "processConcurrently items processor maxConcurrency = Some st"
    using assms by (simp add: processConcurrently_run st_def bs_def n_def)
  have ev: "events st = encode bs"
    by (simp add: st_def fold_runBatch_fields)
  have lb: "launched_batches (events st) = bs"
    by (simp add: ev launched_batches_encode)
  have c: "concat bs = items"
    using n by (simp add: bs_def concat_chunks)
  have len: "map length bs
      = replicate (length items div n) n @ (if length items mod n = 0 then [] else [length items mod n])"
    using n by (simp add: bs_def length_chunks)
  have fl: "\<forall>k. in_flight (take k (events st)) \<le> n"
    using n by (simp add: ev in_flight_def in_flight_take_encode chunks_length_le bs_def)
  have emp: "items = [] \<longrightarrow> results st = [] \<and> events st = []"
    by (simp add: st_def bs_def chunks_Nil)
  have seven: "length items = 7 \<and> maxConcurrency = 5 \<longrightarrow> map length bs = [5, 2]"
    by (simp add: len n_def replicate_one)
  show ?thesis
    unfolding n_def [symmetric]
  proof (intro exI [of _ st] conjI)
    show "processConcurrently items processor maxConcurrency = Some st" by (rule run)
    show "concat (launched_batches (events st)) = items" by (simp only: lb c)
    show "map length (launched_batches (events st))
        = replicate (length items div n) n @ (if length items mod n = 0 then [] else [length items mod n])"
      by (simp only: lb len)
    show "events st = concat (map (\<lambda>b. map Launch b @ [AllSettled]) (launched_batches (events st)))"
      by (simp only: lb) (simp only: ev encode_def)
    show "\<forall>k. in_flight (take k (events st)) \<le> n" by (rule fl)
    show "items = [] \<longrightarrow> results st = [] \<and> events st = []" by (rule emp)
    show "length items = 7 \<and> maxConcurrency = 5
          \<longrightarrow> map length (launched_batches (events st)) = [5, 2]"
      using seven by (simp only: lb)
  qed
qed

theorem processConcurrently_batches_witness:
  "(1::int) \<le> 5 \<and>
   (\<exists>st. processConcurrently [1, 2, 3, 4, 5, 6, 7 :: nat]
            (\<lambda>x. if x = 3 then Inl ''boom'' else Inr (10 * x)) 5 = Some st
      \<and> concat (launched_batches (events st)) = [1, 2, 3, 4, 5, 6, 7]
      \<and> map length (launched_batches (events st)) = [5, 2]
      \<and> (\<forall>k. in_flight (take k (events st)) \<le> 5))"
proof -
  have h: "(1::int) \<le> 5" by simp
  obtain st where "processConcurrently [1, 2, 3, 4, 5, 6, 7 :: nat]
            (\<lambda>x. if x = 3 then Inl ''boom'' else Inr (10 * x)) 5 = Some st"
    and "concat (launched_batches (events st)) = [1, 2, 3, 4, 5, 6, 7]"
    and "length [1, 2, 3, 4, 5, 6, 7 :: nat] = 7 \<and> (5::int) = 5
          \<longrightarrow> map length (launched_batches (events st)) = [5, 2]"
    and "\<forall>k. in_flight (take k (events st)) \<le> nat 5"
    using processConcurrently_batches [OF h, of "[1, 2, 3, 4, 5, 6, 7 :: nat]"
        "\<lambda>x. if x = 3 then Inl ''boom'' else Inr (10 * x)"]
    by (elim exE conjE) (rule that; assumption)
  then show ?thesis by simp
qed

text \<open>
  Claim C2. Whatever items the processor rejects, every item is launched, the results are
  exactly (as a multiset) the values of the fulfilled operations, so the value of every item
  that succeeds is among them, and the warnings are the reasons of the rejected operations,
  one for each.
\<close>

theorem processConcurrently_isolates_failures:
  assumes "1 \<le> maxConcurrency"
  shows "\<exists>st. processConcurrently items processor maxConcurrency = Some st
    \<and> concat (launched_batches (events st)) = items
    \<and> mset (results st) = mset (successes processor items)
    \<and> (\<forall>x v. x \<in> set items \<and> processor x = Inr v \<longrightarrow> v \<in> set (results st))
    \<and> warnings st = failures processor items
    \<and> length (results st) + length (warnings st) = length items"
proof -
  define bs where "bs = chunks (nat maxConcurrency) items"
  define st where "st = fold (runBatch processor) bs \<lparr>results = [], warnings = [], events = []\<rparr>"
  have c: "concat bs = items"
    using assms by (simp add: bs_def concat_chunks)
  have run: "processConcurrently items processor maxConcurrency = Some st"
    using assms by (simp add: processConcurrently_run st_def bs_def)
  have r: "results st = successes processor items"
    by (simp add: st_def fold_runBatch_fields c)
  have w: "warnings st = failures processor items"
    by (simp add: st_def fold_runBatch_fields c)
  have lb: "concat (launched_batches (events st)) = items"
    by (simp add: st_def fold_runBatch_fields launched_batches_encode c)
  show ?thesis
  proof (intro exI [of _ st] conjI)
    show "processConcurrently items processor maxConcurrency = Some st" by (rule run)
    show "concat (launched_batches (events st)) = items" by (rule lb)
    show "mset (results st) = mset (successes processor items)" by (simp only: r)
    show "\<forall>x v. x \<in> set items \<and> processor x = Inr v \<longrightarrow> v \<in> set (results st)"
      using successes_mem [of _ items processor] by (simp only: r) blast
    show "warnings st = failures processor items" by (rule w)
    show "length (results st) + length (warnings st) = length items"
      by (simp only: r w length_successes_failures)
  qed
qed

theorem processConcurrently_isolates_failures_witness:
  "(1::int) \<le> 2 \<and>
   (\<exists>st. processConcurrently [1, 2, 3 :: nat]
            (\<lambda>x. if x = 1 then Inl ''boom'' else Inr (10 * x)) 2 = Some st
      \<and> mset (results st) = {#20, 30#}
      \<and> warnings st = [''boom''])"
proof -
  have h: "(1::int) \<le> 2" by simp
  obtain st where "processConcurrently [1, 2, 3 :: nat]
            (\<lambda>x. if x = 1 then Inl ''boom'' else Inr (10 * x)) 2 = Some st"
    and "mset (results st)
       = mset (successes (\<lambda>x. if x = 1 then Inl ''boom'' else Inr (10 * x)) [1, 2, 3 :: nat])"
    and "warnings st = failures (\<lambda>x. if x = 1 then Inl ''boom'' else Inr (10 * x)) [1, 2, 3 :: nat]"
    using processConcurrently_isolates_failures [OF h, of "[1, 2, 3 :: nat]"
        "\<lambda>x. if x = 1 then Inl ''boom'' else Inr (10 * x)"]
    by (elim exE conjE) (rule that; assumption)
  then show ?thesis
    by (simp add: successes_def failures_def List.map_filter_simps)
qed

text \<open>
  Claim C10. The returned results are the values of the fulfilled operations in the order of
  their source items.
\<close>

theorem processConcurrently_preserves_order:
  assumes "1 \<le> maxConcurrency"
  shows "\<exists>st. processConcurrently items processor maxConcurrency = Some st
    \<and> results st = successes processor items"
proof -
  have "concat (chunks (nat maxConcurrency) items) = items"
    using assms by (simp add: concat_chunks)
  then show ?thesis
    using assms by (simp add: processConcurrently_run fold_runBatch_fields)
qed

theorem processConcurrently_preserves_order_witness:
  "(1::int) \<le> 2 \<and>
   (\<exists>st. processConcurrently [5, 4, 3, 2, 1 :: nat]
            (\<lambda>x. if even x then Inl ''boom'' else Inr (10 * x)) 2 = Some st
      \<and> results st = [50, 30, 10])"
proof -
  have h: "(1::int) \<le> 2" by simp
  show ?thesis
    using processConcurrently_preserves_order [OF h, of "[5, 4, 3, 2, 1 :: nat]"
        "\<lambda>x. if even x then Inl ''boom'' else Inr (10 * x)"]
    by (simp add: successes_def List.map_filter_simps)
qed

section \<open>Properties of the double arithmetic\<close>

lemma roundTiesToEven_upper: "of_int (roundTiesToEven q) \<le> q + 1 / 2"
proof -
  define f where "f = \<lfloor>q\<rfloor>"
  have f: "of_int f \<le> q" by (simp add: f_def)
  show ?thesis
  proof (cases "q - of_int f < 1 / 2")
    case True
    then have "roundTiesToEven q = f" by (simp add: roundTiesToEven_def f_def)
    then show ?thesis using f by simp
  next
    case False
    then have "of_int (roundTiesToEven q) \<le> (of_int f :: rat) + 1"
      by (simp add: roundTiesToEven_def f_def Let_def)
    then show ?thesis using False by linarith
  qed
qed

lemma roundTiesToEven_nonneg: "0 \<le> q \<Longrightarrow> 0 \<le> roundTiesToEven q"
  by (auto simp: roundTiesToEven_def Let_def)

lemma binade_lower:
  assumes "0 < x"
  shows "2 powi binade x \<le> x"
proof -
  obtain a b where q: "quotient_of x = (a, b)" by (cases "quotient_of x")
  have b: "0 < b" using q by (rule quotient_of_denom_pos)
  have x: "x = of_int a / of_int b" using q by (rule quotient_of_div)
  have a: "0 < a" using assms b x by (simp add: zero_less_divide_iff)
  define e where "e = bitlen a - bitlen b"
  have la: "1 \<le> bitlen a" and lb: "1 \<le> bitlen b"
    using a b by (auto simp: bitlen_alt_def)
  show ?thesis
  proof (cases "2 powi e \<le> x")
    case True
    then show ?thesis using assms q a by (simp add: binade_def e_def)
  next
    case False
    have "(2::int) ^ nat (bitlen a - 1) \<le> a" using bitlen_bounds [OF a] by simp
    then have 1: "(2::rat) ^ nat (bitlen a - 1) \<le> of_int a"
      by (metis of_int_le_iff of_int_numeral of_int_power)
    have "b < (2::int) ^ nat (bitlen b)" using bitlen_bounds [OF b] by simp
    then have 2: "of_int b \<le> (2::rat) ^ nat (bitlen b)"
      by (metis less_imp_le of_int_le_iff of_int_numeral of_int_power)
    have "(2::rat) ^ nat (bitlen a - 1) / 2 ^ nat (bitlen b) \<le> of_int a / of_int b"
      using 1 2 b a by (intro frac_le) auto
    moreover have "(2::rat) powi (e - 1) = 2 ^ nat (bitlen a - 1) / 2 ^ nat (bitlen b)"
    proof -
      have "e - 1 = int (nat (bitlen a - 1)) - int (nat (bitlen b))"
        using la lb by (simp add: e_def)
      then have "(2::rat) powi (e - 1) = 2 powi (int (nat (bitlen a - 1)) - int (nat (bitlen b)))"
        by (simp only:)
      also have "\<dots> = 2 powi int (nat (bitlen a - 1)) / 2 powi int (nat (bitlen b))"
        by (rule power_int_diff) simp
      finally show ?thesis by (simp only: power_int_of_nat)
    qed
    ultimately have "2 powi (e - 1) \<le> x" using x by simp
    then show ?thesis using False assms q a by (simp add: binade_def e_def)
  qed
qed

lemma toDouble_nonneg: "0 \<le> x \<Longrightarrow> 0 \<le> toDouble x"
  by (auto simp: toDouble_def Let_def intro!: mult_nonneg_nonneg roundTiesToEven_nonneg
      divide_nonneg_pos)

lemma toDouble_upper:
  assumes "0 < x"
  shows "toDouble x \<le> x + x / 2 ^ 53"
proof -
  define ulp :: rat where "ulp = 2 powi (binade x - 52)"
  have pos: "0 < ulp" by (simp add: ulp_def)
  have "ulp = 2 powi binade x / 2 powi 52"
    unfolding ulp_def by (rule power_int_diff) simp
  then have u: "ulp \<le> x / 2 ^ 52"
    using binade_lower [OF assms] by (simp add: divide_right_mono)
  have "toDouble x = of_int (roundTiesToEven (x / ulp)) * ulp"
    using assms by (simp add: toDouble_def ulp_def Let_def)
  also have "\<dots> \<le> (x / ulp + 1 / 2) * ulp"
    using roundTiesToEven_upper [of "x / ulp"] pos by (intro mult_right_mono) auto
  also have "\<dots> = x + ulp / 2"
    using pos by (simp add: field_simps)
  also have "\<dots> \<le> x + x / 2 ^ 53"
    using u by simp
  finally show ?thesis .
qed

lemma double_12: "toDouble (6 / 5) = 5404319552844595 / 4503599627370496"
  by code_simp

lemma mulDouble_step0:
  "mulDouble 2000 (5404319552844595 / 4503599627370496) = 2400"
  by code_simp

lemma mulDouble_step1:
  "mulDouble 2400 (5404319552844595 / 4503599627370496) = 2880"
  by code_simp

lemma mulDouble_step2:
  "mulDouble 2880 (5404319552844595 / 4503599627370496) = 3456"
  by code_simp

lemma mulDouble_step3:
  "mulDouble 3456 (5404319552844595 / 4503599627370496) = 4559894622712627 / 1099511627776"
  by code_simp

lemma mulDouble_step4:
  "mulDouble (4559894622712627 / 1099511627776) (5404319552844595 / 4503599627370496) = 341992096703447 / 68719476736"
  by code_simp

lemma mulDouble_step5:
  "mulDouble (341992096703447 / 68719476736) (5404319552844595 / 4503599627370496) = 3283124128353091 / 549755813888"
  by code_simp

lemma mulDouble_step6:
  "mulDouble (3283124128353091 / 549755813888) (5404319552844595 / 4503599627370496) = 3939748954023709 / 549755813888"
  by code_simp

lemma mulDouble_step7:
  "mulDouble (3939748954023709 / 549755813888) (5404319552844595 / 4503599627370496) = 4727698744828451 / 549755813888"
  by code_simp

lemma mulDouble_step8:
  "mulDouble (4727698744828451 / 549755813888) (5404319552844595 / 4503599627370496) = 5673238493794141 / 549755813888"
  by code_simp

lemma mulDouble_step9:
  "mulDouble 10000 (5404319552844595 / 4503599627370496) = 12000"
  by code_simp

lemmas mulDouble_steps =
  mulDouble_step0 mulDouble_step1 mulDouble_step2 mulDouble_step3 mulDouble_step4 mulDouble_step5 mulDouble_step6 mulDouble_step7 mulDouble_step8 mulDouble_step9

lemma pollDelay_Suc_values:
  "pollDelay (Suc 0) = 2400"
  "pollDelay (Suc (Suc 0)) = 2880"
  "pollDelay (Suc (Suc (Suc 0))) = 3456"
  "pollDelay (Suc (Suc (Suc (Suc 0)))) = 4559894622712627 / 1099511627776"
  "pollDelay (Suc (Suc (Suc (Suc (Suc 0))))) = 341992096703447 / 68719476736"
  "pollDelay (Suc (Suc (Suc (Suc (Suc (Suc 0)))))) = 3283124128353091 / 549755813888"
  "pollDelay (Suc (Suc (Suc (Suc (Suc (Suc (Suc 0))))))) = 3939748954023709 / 549755813888"
  "pollDelay (Suc (Suc (Suc (Suc (Suc (Suc (Suc (Suc 0)))))))) = 4727698744828451 / 549755813888"
  "pollDelay (Suc (Suc (Suc (Suc (Suc (Suc (Suc (Suc (Suc 0))))))))) = 10000"
  by (simp_all add: double_12 mulDouble_steps)

lemma pollDelay_values:
  "pollDelay 1 = 2400"
  "pollDelay 2 = 2880"
  "pollDelay 3 = 3456"
  "pollDelay 4 = 4559894622712627 / 1099511627776"
  "pollDelay 5 = 341992096703447 / 68719476736"
  "pollDelay 6 = 3283124128353091 / 549755813888"
  "pollDelay 7 = 3939748954023709 / 549755813888"
  "pollDelay 8 = 4727698744828451 / 549755813888"
  "pollDelay 9 = 10000"
  by (simp_all add: eval_nat_numeral pollDelay_Suc_values del: pollDelay.simps(2))

lemma pollDelay_capped: "9 \<le> k \<Longrightarrow> pollDelay k = 10000"
proof (induction k rule: dec_induct)
  case base
  then show ?case by (simp only: pollDelay_values)
next
  case (step n)
  then show ?case by (simp add: double_12 mulDouble_steps)
qed

lemma toDouble_upper0: "0 \<le> x \<Longrightarrow> toDouble x \<le> x + x / 2 ^ 53"
  using toDouble_upper [of x] by (cases "x = 0") (simp_all add: toDouble_def)

lemma pollDelay_le: "pollDelay k \<le> 10000"
  by (cases k) simp_all

lemma pollDelay_nonneg: "0 \<le> pollDelay k"
proof (induction k)
  case 0
  then show ?case by simp
next
  case (Suc k)
  have "0 \<le> pollDelay k * toDouble 1.2"
    using Suc by (intro mult_nonneg_nonneg toDouble_nonneg) simp_all
  then have "0 \<le> toDouble (pollDelay k * toDouble 1.2)"
    by (rule toDouble_nonneg)
  then show ?case by (simp add: mulDouble_def)
qed

lemma pollElapsed_nonneg: "0 \<le> pollElapsed k"
proof (induction k)
  case 0
  then show ?case by simp
next
  case (Suc k)
  have "0 \<le> pollElapsed k + pollDelay k"
    using Suc pollDelay_nonneg [of k] by simp
  then have "0 \<le> toDouble (pollElapsed k + pollDelay k)"
    by (rule toDouble_nonneg)
  then show ?case by (simp add: addDouble_def)
qed

lemma pollElapsed_le: "k \<le> 30 \<Longrightarrow> pollElapsed k \<le> 10001 * of_nat k"
proof (induction k)
  case 0
  then show ?case by simp
next
  case (Suc k)
  define x where "x = pollElapsed k + pollDelay k"
  have k: "of_nat k \<le> (29::rat)" using Suc.prems by simp
  have x0: "0 \<le> x"
    by (simp add: x_def pollElapsed_nonneg pollDelay_nonneg)
  have x1: "x \<le> 10001 * of_nat k + 10000"
    using Suc pollDelay_le [of k] by (simp add: x_def)
  then have "x \<le> 2 ^ 53" using k by simp
  then have "x / 2 ^ 53 \<le> 1" by simp
  then have "toDouble x \<le> x + 1"
    using toDouble_upper0 [OF x0] by linarith
  then show ?case using x1 by (simp add: addDouble_def x_def)
qed

lemma pollElapsed_less: "k < MAX_RETRIES \<Longrightarrow> pollElapsed k < MAX_INDEX_WAIT_TIME"
proof -
  assume "k < MAX_RETRIES"
  then have k: "of_nat k \<le> (29::rat)" and "k \<le> 30" by (simp_all add: MAX_RETRIES_def)
  then have "pollElapsed k \<le> 10001 * of_nat k" by (intro pollElapsed_le)
  then show ?thesis using k by (simp add: MAX_INDEX_WAIT_TIME_def)
qed

section \<open>Properties of createIndexIfNeeded\<close>

lemma calls_append: "calls P (xs @ ys) = calls P xs + calls P ys"
  by (simp add: calls_def)

lemma calls_polls: "a \<le> b \<Longrightarrow> calls is_GetIndexState (polls a b) = b - a"
  by (induction b) (auto simp: polls_def calls_def Suc_diff_le)

lemma polls_Suc: "a \<le> b \<Longrightarrow> polls a (Suc b) = polls a b @ [GetIndexState, Sleep (pollDelay b)]"
  by (simp add: polls_def)

lemma poll_step:
  assumes "e < MAX_INDEX_WAIT_TIME" "r < MAX_RETRIES"
    and "stillBuilding (getIndexState w (calls is_GetIndexState tr))"
  shows "pollIndexState w e p r tr
       = pollIndexState w (addDouble e p) (min (mulDouble p (toDouble 1.2)) 10000) (r + 1)
           (tr @ [GetIndexState, Sleep p])"
  using assms
  by (subst pollIndexState.simps) (auto simp: stillBuilding_def split: sum.splits)

lemma poll_stop:
  "MAX_INDEX_WAIT_TIME \<le> e \<or> MAX_RETRIES \<le> r \<Longrightarrow> pollIndexState w e p r tr = (Inl timedOut, tr)"
  by (subst pollIndexState.simps) (auto simp: timedOut_def)

lemma poll_prefix:
  assumes "k \<le> MAX_RETRIES"
    and "calls is_GetIndexState tr = 0"
    and "\<forall>j<k. stillBuilding (getIndexState w j)"
  shows "pollIndexState w 0 POLLING_INTERVAL 0 tr
       = pollIndexState w (pollElapsed k) (pollDelay k) k (tr @ polls 0 k)"
  using assms
proof (induction k)
  case 0
  then show ?case by (simp add: polls_def POLLING_INTERVAL_def)
next
  case (Suc k)
  have k: "k < MAX_RETRIES" using Suc.prems by simp
  have eq: "pollIndexState w 0 POLLING_INTERVAL 0 tr
      = pollIndexState w (pollElapsed k) (pollDelay k) k (tr @ polls 0 k)"
    using Suc by simp
  have lt: "pollElapsed k < MAX_INDEX_WAIT_TIME"
    using k by (rule pollElapsed_less)
  have c: "calls is_GetIndexState (tr @ polls 0 k) = k"
    using Suc.prems by (simp add: calls_append calls_polls)
  have b: "stillBuilding (getIndexState w (calls is_GetIndexState (tr @ polls 0 k)))"
    using c Suc.prems by simp
  show ?case
    using poll_step [OF lt k b] eq by (simp add: polls_Suc)
qed

lemma poll_times_out:
  assumes "calls is_GetIndexState tr = 0"
    and "\<forall>k<MAX_RETRIES. stillBuilding (getIndexState w k)"
  shows "pollIndexState w 0 POLLING_INTERVAL 0 tr = (Inl timedOut, tr @ polls 0 MAX_RETRIES)"
  using poll_prefix [of MAX_RETRIES tr w] assms by (simp add: poll_stop)

lemma poll_fails:
  assumes "calls is_GetIndexState tr = 0" "k < MAX_RETRIES"
    and "\<forall>j<k. stillBuilding (getIndexState w j)"
    and "getIndexState w k = Inr ''Failed'' \<or> getIndexState w k = Inr ''IndexStateFailed''"
  shows "pollIndexState w 0 POLLING_INTERVAL 0 tr
       = (Inl (Error ''Index creation failed''), tr @ polls 0 k @ [GetIndexState])"
proof -
  have eq: "pollIndexState w 0 POLLING_INTERVAL 0 tr
       = pollIndexState w (pollElapsed k) (pollDelay k) k (tr @ polls 0 k)"
    using poll_prefix [of k tr w] assms by simp
  have lt: "pollElapsed k < MAX_INDEX_WAIT_TIME"
    using assms(2) by (rule pollElapsed_less)
  have c: "calls is_GetIndexState (tr @ polls 0 k) = k"
    using assms(1) by (simp add: calls_append calls_polls)
  have "pollIndexState w (pollElapsed k) (pollDelay k) k (tr @ polls 0 k)
      = (Inl (Error ''Index creation failed''), tr @ polls 0 k @ [GetIndexState])"
    using lt assms(2,4) c by (subst pollIndexState.simps) auto
  then show ?thesis using eq by simp
qed

lemma poll_checks_bounded:
  "calls is_GetIndexState (snd (pollIndexState w e p r tr))
     \<le> calls is_GetIndexState tr + (MAX_RETRIES - r)"
proof (induction w e p r tr rule: pollIndexState.induct)
  case (1 w e p r tr)
  show ?case
  proof (cases "e < MAX_INDEX_WAIT_TIME \<and> r < MAX_RETRIES")
    case False
    then have "pollIndexState w e p r tr = (Inl timedOut, tr)"
      by (intro poll_stop) auto
    then show ?thesis by simp
  next
    case True
    show ?thesis
    proof (cases "stillBuilding (getIndexState w (calls is_GetIndexState tr))")
      case b: True
      then obtain s where s: "getIndexState w (calls is_GetIndexState tr) = Inr s"
        and ns: "\<not> (s = ''Finished'' \<or> s = ''IndexStateFinished'')"
                "\<not> (s = ''Failed'' \<or> s = ''IndexStateFailed'')"
        by (auto simp: stillBuilding_def split: sum.splits)
      have eq: "pollIndexState w e p r tr
          = pollIndexState w (addDouble e p) (min (mulDouble p (toDouble 1.2)) 10000) (r + 1) (tr @ [GetIndexState, Sleep p])"
        using True b by (intro poll_step) auto
      have "calls is_GetIndexState (snd (pollIndexState w (addDouble e p) (min (mulDouble p (toDouble 1.2)) 10000) (r + 1)
                 (tr @ [GetIndexState, Sleep p])))
            \<le> calls is_GetIndexState (tr @ [GetIndexState, Sleep p]) + (MAX_RETRIES - (r + 1))"
        by (rule 1 [OF True s ns])
      moreover have "calls is_GetIndexState (tr @ [GetIndexState, Sleep p])
            = calls is_GetIndexState tr + 1"
        by (simp add: calls_def)
      ultimately show ?thesis
        unfolding eq using True by linarith
    next
      case b: False
      have "snd (pollIndexState w e p r tr) = tr @ [GetIndexState]"
        using True b
        by (subst pollIndexState.simps) (auto simp: stillBuilding_def split: sum.splits)
      then show ?thesis using True by (auto simp: calls_def)
    qed
  qed
qed

lemma poll_other_calls:
  assumes "\<not> P GetIndexState" and "\<forall>t. \<not> P (Sleep t)"
  shows "calls P (snd (pollIndexState w e p r tr)) = calls P tr"
proof (induction w e p r tr rule: pollIndexState.induct)
  case (1 w e p r tr)
  show ?case
  proof (cases "e < MAX_INDEX_WAIT_TIME \<and> r < MAX_RETRIES")
    case False
    then have "pollIndexState w e p r tr = (Inl timedOut, tr)"
      by (intro poll_stop) auto
    then show ?thesis by simp
  next
    case True
    show ?thesis
    proof (cases "stillBuilding (getIndexState w (calls is_GetIndexState tr))")
      case b: True
      then obtain s where s: "getIndexState w (calls is_GetIndexState tr) = Inr s"
        and ns: "\<not> (s = ''Finished'' \<or> s = ''IndexStateFinished'')"
                "\<not> (s = ''Failed'' \<or> s = ''IndexStateFailed'')"
        by (auto simp: stillBuilding_def split: sum.splits)
      have eq: "pollIndexState w e p r tr
          = pollIndexState w (addDouble e p) (min (mulDouble p (toDouble 1.2)) 10000) (r + 1) (tr @ [GetIndexState, Sleep p])"
        using True b by (intro poll_step) auto
      have "calls P (snd (pollIndexState w (addDouble e p) (min (mulDouble p (toDouble 1.2)) 10000) (r + 1)
                 (tr @ [GetIndexState, Sleep p])))
            = calls P (tr @ [GetIndexState, Sleep p])"
        by (rule 1 [OF True s ns])
      then show ?thesis
        unfolding eq using assms by (simp add: calls_def)
    next
      case b: False
      have "snd (pollIndexState w e p r tr) = tr @ [GetIndexState]"
        using True b
        by (subst pollIndexState.simps) (auto simp: stillBuilding_def split: sum.splits)
      then show ?thesis using assms by (simp add: calls_def)
    qed
  qed
qed

lemma poll_extends: "\<exists>rest. snd (pollIndexState w e p r tr) = tr @ rest"
proof (induction w e p r tr rule: pollIndexState.induct)
  case (1 w e p r tr)
  show ?case
  proof (cases "e < MAX_INDEX_WAIT_TIME \<and> r < MAX_RETRIES")
    case False
    then have "pollIndexState w e p r tr = (Inl timedOut, tr)"
      by (intro poll_stop) auto
    then show ?thesis by simp
  next
    case True
    show ?thesis
    proof (cases "stillBuilding (getIndexState w (calls is_GetIndexState tr))")
      case b: True
      then obtain s where s: "getIndexState w (calls is_GetIndexState tr) = Inr s"
        and ns: "\<not> (s = ''Finished'' \<or> s = ''IndexStateFinished'')"
                "\<not> (s = ''Failed'' \<or> s = ''IndexStateFailed'')"
        by (auto simp: stillBuilding_def split: sum.splits)
      have eq: "pollIndexState w e p r tr
          = pollIndexState w (addDouble e p) (min (mulDouble p (toDouble 1.2)) 10000) (r + 1) (tr @ [GetIndexState, Sleep p])"
        using True b by (intro poll_step) auto
      obtain rest where "snd (pollIndexState w (addDouble e p) (min (mulDouble p (toDouble 1.2)) 10000) (r + 1)
                 (tr @ [GetIndexState, Sleep p])) = (tr @ [GetIndexState, Sleep p]) @ rest"
        using 1 [OF True s ns] by blast
      then show ?thesis
        unfolding eq by simp
    next
      case b: False
      have "snd (pollIndexState w e p r tr) = tr @ [GetIndexState]"
        using True b
        by (subst pollIndexState.simps) (auto simp: stillBuilding_def split: sum.splits)
      then show ?thesis by simp
    qed
  qed
qed

lemma calls_simps:
  "calls P [] = 0"
  "calls P (x # xs) = (if P x then Suc (calls P xs) else calls P xs)"
  by (simp_all add: calls_def)

lemma createIndexIfNeeded_exists:
  "reportsIndex (describeIndex w (calls is_DescribeIndex tr))
     \<Longrightarrow> createIndexIfNeeded w n tr = (Inr True, tr @ [DescribeIndex])"
  by (auto simp: createIndexIfNeeded_def reportsIndex_def split: sum.splits option.splits)

lemma createIndexIfNeeded_rejected:
  "\<not> reportsIndex (describeIndex w (calls is_DescribeIndex tr))
     \<Longrightarrow> createIndex w (calls is_CreateIndex tr) = Inl e
     \<Longrightarrow> createIndexIfNeeded w n tr = (Inl e, tr @ [DescribeIndex, CreateIndex (nlist n)])"
  by (auto simp: createIndexIfNeeded_def reportsIndex_def calls_def split: sum.splits option.splits)

lemma createIndexIfNeeded_polls:
  "\<not> reportsIndex (describeIndex w (calls is_DescribeIndex tr))
     \<Longrightarrow> createIndex w (calls is_CreateIndex tr) = Inr u
     \<Longrightarrow> createIndexIfNeeded w n tr
         = pollIndexState w 0 POLLING_INTERVAL 0 (tr @ [DescribeIndex, CreateIndex (nlist n)])"
  by (auto simp: createIndexIfNeeded_def reportsIndex_def calls_def split: sum.splits option.splits)

lemma createIndexIfNeeded_checks_bounded:
  "calls is_GetIndexState (snd (createIndexIfNeeded w n [])) \<le> MAX_RETRIES"
proof (cases "reportsIndex (describeIndex w (calls is_DescribeIndex []))")
  case True
  then show ?thesis by (simp add: createIndexIfNeeded_exists) (simp add: calls_def)
next
  case False
  show ?thesis
  proof (cases "createIndex w (calls is_CreateIndex [])")
    case (Inl e)
    then show ?thesis using False
      by (simp add: createIndexIfNeeded_rejected) (simp add: calls_def)
  next
    case (Inr u)
    have "calls is_GetIndexState [DescribeIndex, CreateIndex (nlist n)] = 0"
      by (simp add: calls_def)
    then show ?thesis
      using False Inr
        poll_checks_bounded [of w 0 POLLING_INTERVAL 0 "[DescribeIndex, CreateIndex (nlist n)]"]
      by (simp add: createIndexIfNeeded_polls)
  qed
qed

lemma ideal_capped: "9 \<le> k \<Longrightarrow> min (2000 * 1.2 ^ k) (10000::rat) = 10000"
proof -
  assume "9 \<le> k"
  then have "(1.2::rat) ^ 9 \<le> 1.2 ^ k"
    by (intro power_increasing) simp_all
  moreover have "(5::rat) \<le> 1.2 ^ 9"
    by (simp add: power_divide)
  ultimately have "(10000::rat) \<le> 2000 * 1.2 ^ k" by linarith
  then show ?thesis by (simp add: min_def)
qed

lemma pollDelay_first: "map pollDelay [0..<9]
     = [2000, 2400, 2880, 3456, 4559894622712627 / 2 ^ 40, 341992096703447 / 2 ^ 36,
        3283124128353091 / 2 ^ 39, 3939748954023709 / 2 ^ 39, 4727698744828451 / 2 ^ 39]"
proof -
  have "[0..<9] = [0, Suc 0, Suc (Suc 0), Suc (Suc (Suc 0)), Suc (Suc (Suc (Suc 0))),
      Suc (Suc (Suc (Suc (Suc 0)))), Suc (Suc (Suc (Suc (Suc (Suc 0))))),
      Suc (Suc (Suc (Suc (Suc (Suc (Suc 0)))))), Suc (Suc (Suc (Suc (Suc (Suc (Suc (Suc 0)))))))]"
    by (simp add: eval_nat_numeral upt_rec del: upt_Suc)
  then show ?thesis
    by (simp add: pollDelay_Suc_values del: pollDelay.simps(2))
qed

lemma small_cases: "k < 9 \<Longrightarrow> k = 0 \<or> k = 1 \<or> k = 2 \<or> k = 3 \<or> k = 4 \<or> k = 5 \<or> k = 6 \<or> k = 7 \<or> k = (8::nat)"
  by arith

lemma pollDelay_exact: "k \<le> 3 \<or> 9 \<le> k \<Longrightarrow> pollDelay k = min (2000 * 1.2 ^ k) 10000"
proof (cases "9 \<le> k")
  case True
  then show ?thesis by (simp only: pollDelay_capped ideal_capped)
next
  case False
  assume "k \<le> 3 \<or> 9 \<le> k"
  then have "k = 0 \<or> k = 1 \<or> k = 2 \<or> k = 3" using False by arith
  then show ?thesis
    by (elim disjE)
      (simp_all add: pollDelay_values pollDelay_Suc_values power_divide
        del: pollDelay.simps(2))
qed

lemma pollDelay_close: "\<bar>pollDelay k - min (2000 * 1.2 ^ k) 10000\<bar> \<le> 2 / 10 ^ 12"
proof (cases "9 \<le> k")
  case True
  then show ?thesis by (simp only: pollDelay_capped ideal_capped) simp
next
  case False
  then have "k = 0 \<or> k = 1 \<or> k = 2 \<or> k = 3 \<or> k = 4 \<or> k = 5 \<or> k = 6 \<or> k = 7 \<or> k = 8"
    by (intro small_cases) simp
  then show ?thesis
    by (elim disjE)
      (simp_all add: pollDelay_values pollDelay_Suc_values power_divide
        del: pollDelay.simps(2))
qed

text \<open>
  Claim C5, amended. When no index is reported, creation is accepted and every state check
  answers with a state that is neither finished nor failed, the run is: describe, create, then
  \<open>MAX_RETRIES\<close> rounds of one state check and one sleep, and then the timeout error. The
  \<open>k\<close>-th sleep lasts \<open>pollDelay k\<close> milliseconds: 2000 at first, and each time the double
  product of the last delay and 1.2, capped at 10000. That is \<open>min (2000 * 1.2 ^ k) 10000\<close>
  exactly for \<open>k \<le> 3\<close> and from \<open>k = 9\<close> on, where it is the cap; for \<open>k\<close> from 4 to 8 it
  is the rounded value listed, within \<open>2 / 10 ^ 12\<close> of it. No run makes more than
  \<open>MAX_RETRIES\<close> state checks. From any state of the loop, it stops with the timeout error
  without a further check as soon as the elapsed time has reached \<open>MAX_INDEX_WAIT_TIME\<close> or
  the retry count \<open>MAX_RETRIES\<close>, and otherwise goes on.
\<close>

theorem createIndexIfNeeded_polling_backoff:
  assumes "\<not> reportsIndex (describeIndex w 0)"
    and "createIndex w 0 = Inr ()"
    and "\<forall>k<MAX_RETRIES. stillBuilding (getIndexState w k)"
  shows "createIndexIfNeeded w n []
       = (Inl (Error ''Index creation timed out after 600 seconds or exceeded 30 retries.''),
          [DescribeIndex, CreateIndex (nlist n)]
          @ concat (map (\<lambda>k. [GetIndexState, Sleep (pollDelay k)]) [0..<MAX_RETRIES]))
    \<and> map pollDelay [0..<9]
        = [2000, 2400, 2880, 3456, 4559894622712627 / 2 ^ 40, 341992096703447 / 2 ^ 36,
           3283124128353091 / 2 ^ 39, 3939748954023709 / 2 ^ 39, 4727698744828451 / 2 ^ 39]
    \<and> (\<forall>k. 9 \<le> k \<longrightarrow> pollDelay k = 10000)
    \<and> (\<forall>k. k \<le> 3 \<or> 9 \<le> k \<longrightarrow> pollDelay k = min (2000 * 1.2 ^ k) 10000)
    \<and> (\<forall>k. \<bar>pollDelay k - min (2000 * 1.2 ^ k) 10000\<bar> \<le> 2 / 10 ^ 12)
    \<and> calls is_GetIndexState (snd (createIndexIfNeeded w n [])) = MAX_RETRIES
    \<and> (\<forall>w' m. calls is_GetIndexState (snd (createIndexIfNeeded w' m [])) \<le> MAX_RETRIES)
    \<and> (\<forall>e p r tr. MAX_INDEX_WAIT_TIME \<le> e \<or> MAX_RETRIES \<le> r \<longrightarrow>
          pollIndexState w e p r tr
            = (Inl (Error ''Index creation timed out after 600 seconds or exceeded 30 retries.''), tr))
    \<and> (\<forall>e p r tr. e < MAX_INDEX_WAIT_TIME \<and> r < MAX_RETRIES
            \<and> stillBuilding (getIndexState w (calls is_GetIndexState tr)) \<longrightarrow>
          pollIndexState w e p r tr
            = pollIndexState w (addDouble e p) (min (mulDouble p (toDouble 1.2)) 10000) (r + 1)
                (tr @ [GetIndexState, Sleep p]))"
proof -
  have c0: "calls is_GetIndexState [DescribeIndex, CreateIndex (nlist n)] = 0"
    by (simp add: calls_def)
  have run: "createIndexIfNeeded w n []
      = (Inl timedOut, [DescribeIndex, CreateIndex (nlist n)] @ polls 0 MAX_RETRIES)"
    using assms poll_times_out [OF c0 assms(3)]
    by (simp add: createIndexIfNeeded_polls [where u = "()"] calls_def)
  have cnt: "calls is_GetIndexState (snd (createIndexIfNeeded w n [])) = MAX_RETRIES"
    by (simp add: run calls_simps calls_polls)
  show ?thesis
  proof (intro conjI allI impI)
    show "createIndexIfNeeded w n []
       = (Inl (Error ''Index creation timed out after 600 seconds or exceeded 30 retries.''),
          [DescribeIndex, CreateIndex (nlist n)]
          @ concat (map (\<lambda>k. [GetIndexState, Sleep (pollDelay k)]) [0..<MAX_RETRIES]))"
      using run by (simp only: timedOut_def polls_def)
    show "map pollDelay [0..<9]
        = [2000, 2400, 2880, 3456, 4559894622712627 / 2 ^ 40, 341992096703447 / 2 ^ 36,
           3283124128353091 / 2 ^ 39, 3939748954023709 / 2 ^ 39, 4727698744828451 / 2 ^ 39]"
      by (rule pollDelay_first)
    show "pollDelay k = 10000" if "9 \<le> k" for k
      using that by (rule pollDelay_capped)
    show "pollDelay k = min (2000 * 1.2 ^ k) 10000" if "k \<le> 3 \<or> 9 \<le> k" for k
      using that by (rule pollDelay_exact)
    show "\<bar>pollDelay k - min (2000 * 1.2 ^ k) 10000\<bar> \<le> 2 / 10 ^ 12" for k
      by (rule pollDelay_close)
    show "calls is_GetIndexState (snd (createIndexIfNeeded w n [])) = MAX_RETRIES"
      by (rule cnt)
    show "calls is_GetIndexState (snd (createIndexIfNeeded w' m [])) \<le> MAX_RETRIES" for w' m
      by (rule createIndexIfNeeded_checks_bounded)
    show "pollIndexState w e p r tr
            = (Inl (Error ''Index creation timed out after 600 seconds or exceeded 30 retries.''), tr)"
      if "MAX_INDEX_WAIT_TIME \<le> e \<or> MAX_RETRIES \<le> r" for e p r tr
      using poll_stop [OF that] by (simp only: timedOut_def)
    show "pollIndexState w e p r tr
            = pollIndexState w (addDouble e p) (min (mulDouble p (toDouble 1.2)) 10000) (r + 1)
                (tr @ [GetIndexState, Sleep p])"
      if "e < MAX_INDEX_WAIT_TIME \<and> r < MAX_RETRIES
            \<and> stillBuilding (getIndexState w (calls is_GetIndexState tr))" for e p r tr
      using that by (intro poll_step) auto
  qed
qed

theorem createIndexIfNeeded_polling_backoff_witness:
  "(\<not> reportsIndex (describeIndex idleWorld 0) \<and> createIndex idleWorld 0 = Inr ()
      \<and> list_all (\<lambda>k. stillBuilding (getIndexState idleWorld k)) [0..<MAX_RETRIES])
   \<and> fst (createIndexIfNeeded idleWorld 10 [])
       = Inl (Error ''Index creation timed out after 600 seconds or exceeded 30 retries.'')
   \<and> calls is_GetIndexState (snd (createIndexIfNeeded idleWorld 10 [])) = 30"
proof -
  have h1: "\<not> reportsIndex (describeIndex idleWorld 0)"
    by (simp add: idleWorld_def reportsIndex_def)
  have h2: "createIndex idleWorld 0 = Inr ()"
    by (simp add: idleWorld_def)
  have h3: "\<forall>k<MAX_RETRIES. stillBuilding (getIndexState idleWorld k)"
    by (simp add: idleWorld_def stillBuilding_def)
  note t = createIndexIfNeeded_polling_backoff [OF h1 h2 h3, of 10]
  have a: "fst (createIndexIfNeeded idleWorld 10 [])
       = Inl (Error ''Index creation timed out after 600 seconds or exceeded 30 retries.'')"
    by (simp only: t [THEN conjunct1] fst_conv)
  have b: "calls is_GetIndexState (snd (createIndexIfNeeded idleWorld 10 [])) = 30"
    using t [THEN conjunct2, THEN conjunct2, THEN conjunct2, THEN conjunct2, THEN conjunct2,
        THEN conjunct1]
    by (simp only: MAX_RETRIES_def)
  have h3': "list_all (\<lambda>k. stillBuilding (getIndexState idleWorld k)) [0..<MAX_RETRIES]"
    using h3 by (simp add: list_all_iff)
  show ?thesis
    using h1 h2 h3' a b by (intro conjI)
qed

lemma polls_6:
  "polls 0 6 = [GetIndexState, Sleep 2000, GetIndexState, Sleep 2400, GetIndexState, Sleep 2880,
      GetIndexState, Sleep 3456, GetIndexState, Sleep (4559894622712627 / 2 ^ 40),
      GetIndexState, Sleep (341992096703447 / 2 ^ 36)]"
proof -
  have "[0..<6] = [0, Suc 0, Suc (Suc 0), Suc (Suc (Suc 0)), Suc (Suc (Suc (Suc 0))),
      Suc (Suc (Suc (Suc (Suc 0))))]"
    by (simp add: eval_nat_numeral upt_rec del: upt_Suc)
  then show ?thesis
    by (simp add: polls_def pollDelay_Suc_values del: pollDelay.simps(2))
qed

lemma double_ideal_5: "toDouble (124416 / 25) = 5471873547255153 / 2 ^ 40"
  by code_simp

text \<open>
  Claim C5 as stated gives the interval before the \<open>k\<close>-th sleep as exactly
  \<open>min (2000 * 1.2 ^ k) 10000\<close>. With a store whose seventh state check reports a failure the
  run has six sleeps. The one for \<open>k = 4\<close> lasts the double 3456 * 1.2, which is not 4147.2;
  the one for \<open>k = 5\<close> lasts 4976.639999999999 ms, which is neither 4976.64 nor the double
  nearest to it.
\<close>

theorem createIndexIfNeeded_polling_counterexample:
  "createIndexIfNeeded lateFailWorld 10 []
     = (Inl (Error ''Index creation failed''),
        [DescribeIndex, CreateIndex 5, GetIndexState, Sleep 2000, GetIndexState, Sleep 2400,
         GetIndexState, Sleep 2880, GetIndexState, Sleep 3456, GetIndexState,
         Sleep (4559894622712627 / 2 ^ 40), GetIndexState,
         Sleep (341992096703447 / 2 ^ 36), GetIndexState])
   \<and> 4559894622712627 / 2 ^ 40 \<noteq> min (2000 * 1.2 ^ 4) (10000::rat)
   \<and> 341992096703447 / 2 ^ 36 \<noteq> min (2000 * 1.2 ^ 5) (10000::rat)
   \<and> 341992096703447 / 2 ^ 36 \<noteq> toDouble (min (2000 * 1.2 ^ 5) 10000)"
proof -
  have c0: "calls is_GetIndexState [DescribeIndex, CreateIndex (nlist 10)] = 0"
    by (simp add: calls_def)
  have k: "6 < MAX_RETRIES" by (simp add: MAX_RETRIES_def)
  have b: "\<forall>j<6. stillBuilding (getIndexState lateFailWorld j)"
    by (simp add: lateFailWorld_def idleWorld_def stillBuilding_def)
  have f: "getIndexState lateFailWorld 6 = Inr ''Failed''
      \<or> getIndexState lateFailWorld 6 = Inr ''IndexStateFailed''"
    by (simp add: lateFailWorld_def idleWorld_def)
  have d: "\<not> reportsIndex (describeIndex lateFailWorld (calls is_DescribeIndex []))"
    by (simp add: lateFailWorld_def idleWorld_def reportsIndex_def)
  have c: "createIndex lateFailWorld (calls is_CreateIndex []) = Inr ()"
    by (simp add: lateFailWorld_def idleWorld_def)
  have "createIndexIfNeeded lateFailWorld 10 []
      = (Inl (Error ''Index creation failed''),
         [DescribeIndex, CreateIndex (nlist 10)] @ polls 0 6 @ [GetIndexState])"
    using poll_fails [OF c0 k b f] by (simp add: createIndexIfNeeded_polls [OF d c])
  moreover have "nlist 10 = 5" by (simp add: nlist_def)
  moreover have "(4559894622712627::rat) / 2 ^ 40 \<noteq> min (2000 * 1.2 ^ 4) 10000"
    by (simp add: power_divide)
  moreover have "(341992096703447::rat) / 2 ^ 36 \<noteq> min (2000 * 1.2 ^ 5) 10000"
    by (simp add: power_divide)
  moreover have "min (2000 * 1.2 ^ 5) (10000::rat) = 124416 / 25"
    by (simp add: power_divide)
  moreover have "(341992096703447::rat) / 2 ^ 36 \<noteq> 5471873547255153 / 2 ^ 40"
    by simp
  ultimately show ?thesis by (simp only: polls_6 double_ideal_5 append.simps simp_thms)
qed

text \<open>
  Claim C7. If the \<open>k\<close>-th state check (\<open>k = 0\<close> is the first) answers with a failed
  state, the checks before it having answered with a state that is neither finished nor
  failed, the function raises the index creation error and the state check that saw the
  failure is the last effect: \<open>k + 1\<close> checks and \<open>k\<close> sleeps in all, the \<open>j\<close>-th sleep
  lasting \<open>pollDelay j\<close>.
\<close>

theorem createIndexIfNeeded_failed_state:
  assumes "\<not> reportsIndex (describeIndex w 0)"
    and "createIndex w 0 = Inr ()"
    and "k < MAX_RETRIES"
    and "\<forall>j<k. stillBuilding (getIndexState w j)"
    and "getIndexState w k = Inr ''Failed'' \<or> getIndexState w k = Inr ''IndexStateFailed''"
  shows "createIndexIfNeeded w n []
       = (Inl (Error ''Index creation failed''),
          [DescribeIndex, CreateIndex (nlist n)]
          @ concat (map (\<lambda>j. [GetIndexState, Sleep (pollDelay j)]) [0..<k])
          @ [GetIndexState])
    \<and> calls is_GetIndexState (snd (createIndexIfNeeded w n [])) = k + 1
    \<and> calls is_Sleep (snd (createIndexIfNeeded w n [])) = k"
proof -
  have c0: "calls is_GetIndexState [DescribeIndex, CreateIndex (nlist n)] = 0"
    by (simp add: calls_def)
  have run: "createIndexIfNeeded w n []
      = (Inl (Error ''Index creation failed''),
         [DescribeIndex, CreateIndex (nlist n)] @ polls 0 k @ [GetIndexState])"
    using assms(1,2) poll_fails [OF c0 assms(3,4,5)]
    by (simp add: createIndexIfNeeded_polls [where u = "()"] calls_def)
  have s: "calls is_Sleep (polls 0 k) = k"
    by (induction k) (simp_all add: polls_def calls_def)
  show ?thesis
  proof (intro conjI)
    show "createIndexIfNeeded w n []
       = (Inl (Error ''Index creation failed''),
          [DescribeIndex, CreateIndex (nlist n)]
          @ concat (map (\<lambda>j. [GetIndexState, Sleep (pollDelay j)]) [0..<k])
          @ [GetIndexState])"
      using run by (simp only: polls_def)
    show "calls is_GetIndexState (snd (createIndexIfNeeded w n [])) = k + 1"
      by (simp add: run calls_simps calls_append calls_polls)
    show "calls is_Sleep (snd (createIndexIfNeeded w n [])) = k"
      by (simp add: run calls_simps calls_append s)
  qed
qed

theorem createIndexIfNeeded_failed_state_witness:
  "(\<not> reportsIndex (describeIndex failingWorld 0) \<and> createIndex failingWorld 0 = Inr ()
      \<and> 2 < MAX_RETRIES
      \<and> stillBuilding (getIndexState failingWorld 0)
      \<and> stillBuilding (getIndexState failingWorld 1)
      \<and> getIndexState failingWorld 2 = Inr ''Failed'')
   \<and> createIndexIfNeeded failingWorld 10 []
       = (Inl (Error ''Index creation failed''),
          [DescribeIndex, CreateIndex 5, GetIndexState, Sleep 2000, GetIndexState, Sleep 2400,
           GetIndexState])"
proof -
  have h1: "\<not> reportsIndex (describeIndex failingWorld 0)"
    by (simp add: failingWorld_def idleWorld_def reportsIndex_def)
  have h2: "createIndex failingWorld 0 = Inr ()"
    by (simp add: failingWorld_def idleWorld_def)
  have h3: "2 < MAX_RETRIES"
    by (simp add: MAX_RETRIES_def)
  have h4: "\<forall>j<2. stillBuilding (getIndexState failingWorld j)"
    by (simp add: failingWorld_def idleWorld_def stillBuilding_def)
  have h5: "getIndexState failingWorld 2 = Inr ''Failed''
           \<or> getIndexState failingWorld 2 = Inr ''IndexStateFailed''"
    by (simp add: failingWorld_def idleWorld_def)
  have u: "[0..<2] = [0, Suc 0]"
    by (simp add: numeral_2_eq_2)
  have h6: "stillBuilding (getIndexState failingWorld 0)"
    "stillBuilding (getIndexState failingWorld 1)"
    "getIndexState failingWorld 2 = Inr ''Failed''"
    by (simp_all add: failingWorld_def idleWorld_def stillBuilding_def)
  have n: "nlist 10 = 5" by (simp add: nlist_def)
  show ?thesis
    using h1 h2 h3 h6 createIndexIfNeeded_failed_state [OF h1 h2 h3 h4 h5, of 10]
    by (simp add: u n pollDelay_Suc_values del: pollDelay.simps(2))
qed

lemma ceiling_half: "\<lceil>(of_int n :: rat) / 2\<rceil> = (n + 1) div 2"
proof -
  have "\<lceil>(of_int n :: rat) / of_int 2\<rceil> = - (- n div 2)"
    by (rule ceiling_divide_eq_div)
  then show ?thesis by simp
qed

lemma ceiling_half_real: "\<lceil>(of_int n :: real) / 2\<rceil> = (n + 1) div 2"
proof -
  have "\<lceil>(of_int n :: real) / of_int 2\<rceil> = - (- n div 2)"
    by (rule ceiling_divide_eq_div)
  then show ?thesis by simp
qed

lemma nlist_int: "nlist n = min 128 (max 4 ((n + 1) div 2))"
  by (simp only: nlist_def ceiling_half)

text \<open>
  Claim C6. For a count \<open>n \<ge> 1\<close>, when no index is reported the creation call follows the
  describe call, carries \<open>nlist n\<close>, and is the only creation call of the run; and
  \<open>nlist n\<close> is \<open>min 128 (max 4 (ceiling (n / 2)))\<close>, lies between 4 and 128, is 4 up to
  \<open>n = 8\<close> and 128 from \<open>n = 255\<close> on.
\<close>

theorem createIndexIfNeeded_nlist:
  assumes "1 \<le> n"
  shows "(\<not> reportsIndex (describeIndex w (calls is_DescribeIndex tr)) \<longrightarrow>
            (\<exists>rest. snd (createIndexIfNeeded w n tr)
                      = tr @ [DescribeIndex, CreateIndex (nlist n)] @ rest
                   \<and> calls is_CreateIndex rest = 0))
    \<and> nlist n = min 128 (max 4 \<lceil>real_of_int n / 2\<rceil>)
    \<and> 4 \<le> nlist n \<and> nlist n \<le> 128
    \<and> (n \<le> 8 \<longrightarrow> nlist n = 4)
    \<and> (255 \<le> n \<longrightarrow> nlist n = 128)"
proof (intro conjI impI)
  assume nr: "\<not> reportsIndex (describeIndex w (calls is_DescribeIndex tr))"
  let ?tr = "tr @ [DescribeIndex, CreateIndex (nlist n)]"
  show "\<exists>rest. snd (createIndexIfNeeded w n tr) = tr @ [DescribeIndex, CreateIndex (nlist n)] @ rest
           \<and> calls is_CreateIndex rest = 0"
  proof (cases "createIndex w (calls is_CreateIndex tr)")
    case (Inl e)
    then show ?thesis using nr
      by (simp add: createIndexIfNeeded_rejected calls_simps)
  next
    case (Inr u)
    obtain rest where rest: "snd (pollIndexState w 0 POLLING_INTERVAL 0 ?tr) = ?tr @ rest"
      using poll_extends by blast
    have "calls is_CreateIndex (snd (pollIndexState w 0 POLLING_INTERVAL 0 ?tr))
        = calls is_CreateIndex ?tr"
      by (rule poll_other_calls) simp_all
    then have "calls is_CreateIndex rest = 0"
      by (simp add: rest calls_append calls_simps)
    then show ?thesis using nr Inr rest
      by (simp add: createIndexIfNeeded_polls)
  qed
next
  show "nlist n = min 128 (max 4 \<lceil>real_of_int n / 2\<rceil>)"
    by (simp only: nlist_int ceiling_half_real)
  show "4 \<le> nlist n" by (simp add: nlist_int)
  show "nlist n \<le> 128" by (simp add: nlist_int)
  show "nlist n = 4" if "n \<le> 8" using that by (simp add: nlist_int)
  show "nlist n = 128" if "255 \<le> n" using that by (simp add: nlist_int)
qed

theorem createIndexIfNeeded_nlist_witness:
  "(1::int) \<le> 10 \<and> \<not> reportsIndex (describeIndex idleWorld (calls is_DescribeIndex []))
   \<and> nlist 10 = 5
   \<and> (\<exists>rest. snd (createIndexIfNeeded idleWorld 10 []) = [DescribeIndex, CreateIndex 5] @ rest)"
proof -
  have h1: "(1::int) \<le> 10" by simp
  have h2: "\<not> reportsIndex (describeIndex idleWorld (calls is_DescribeIndex []))"
    by (simp add: idleWorld_def reportsIndex_def)
  have n: "nlist 10 = 5"
    using createIndexIfNeeded_nlist [OF h1, of idleWorld "[]"] by simp
  have "\<exists>rest. snd (createIndexIfNeeded idleWorld 10 [])
           = [] @ [DescribeIndex, CreateIndex (nlist 10)] @ rest \<and> calls is_CreateIndex rest = 0"
    using createIndexIfNeeded_nlist [OF h1, of idleWorld "[]"] h2 by blast
  then show ?thesis using h1 h2 n by auto
qed

lemma createIndexIfNeeded_describes_once:
  "calls is_DescribeIndex (snd (createIndexIfNeeded w n tr)) = calls is_DescribeIndex tr + 1"
proof (cases "reportsIndex (describeIndex w (calls is_DescribeIndex tr))")
  case True
  then show ?thesis by (simp add: createIndexIfNeeded_exists calls_append calls_simps)
next
  case False
  show ?thesis
  proof (cases "createIndex w (calls is_CreateIndex tr)")
    case (Inl e)
    then show ?thesis using False
      by (simp add: createIndexIfNeeded_rejected calls_append calls_simps)
  next
    case (Inr u)
    have "calls is_DescribeIndex (snd (pollIndexState w 0 POLLING_INTERVAL 0
              (tr @ [DescribeIndex, CreateIndex (nlist n)])))
        = calls is_DescribeIndex (tr @ [DescribeIndex, CreateIndex (nlist n)])"
      by (rule poll_other_calls) simp_all
    then show ?thesis using False Inr
      by (simp add: createIndexIfNeeded_polls calls_append calls_simps)
  qed
qed

lemma createIndexIfNeeded_creates_at_most_once:
  "calls is_CreateIndex (snd (createIndexIfNeeded w n tr)) \<le> calls is_CreateIndex tr + 1"
proof (cases "reportsIndex (describeIndex w (calls is_DescribeIndex tr))")
  case True
  then show ?thesis by (simp add: createIndexIfNeeded_exists calls_append calls_simps)
next
  case False
  show ?thesis
  proof (cases "createIndex w (calls is_CreateIndex tr)")
    case (Inl e)
    then show ?thesis using False
      by (simp add: createIndexIfNeeded_rejected calls_append calls_simps)
  next
    case (Inr u)
    have "calls is_CreateIndex (snd (pollIndexState w 0 POLLING_INTERVAL 0
              (tr @ [DescribeIndex, CreateIndex (nlist n)])))
        = calls is_CreateIndex (tr @ [DescribeIndex, CreateIndex (nlist n)])"
      by (rule poll_other_calls) simp_all
    then show ?thesis using False Inr
      by (simp add: createIndexIfNeeded_polls calls_append calls_simps)
  qed
qed

text \<open>
  Claim C8, amended. When the describe call reports at least one index description, the
  function returns \<open>true\<close> and the describe call is all it did: no creation call, no state
  check. Of two calls in succession, at most one makes a creation call provided the second
  describe call reports an index whenever the first call requested the creation.
\<close>

theorem createIndexIfNeeded_idempotent:
  "(reportsIndex (describeIndex w (calls is_DescribeIndex tr)) \<longrightarrow>
      createIndexIfNeeded w n tr = (Inr True, tr @ [DescribeIndex]))
   \<and> (\<forall>res1 tr1 res2 tr2.
        createIndexIfNeeded w n [] = (res1, tr1)
        \<and> createIndexIfNeeded w m tr1 = (res2, tr2)
        \<and> (calls is_CreateIndex tr1 = 1 \<longrightarrow> reportsIndex (describeIndex w 1))
        \<longrightarrow> calls is_CreateIndex tr2 \<le> 1)"
proof (intro conjI impI allI)
  assume "reportsIndex (describeIndex w (calls is_DescribeIndex tr))"
  then show "createIndexIfNeeded w n tr = (Inr True, tr @ [DescribeIndex])"
    by (rule createIndexIfNeeded_exists)
next
  fix res1 tr1 res2 tr2
  assume a: "createIndexIfNeeded w n [] = (res1, tr1)
        \<and> createIndexIfNeeded w m tr1 = (res2, tr2)
        \<and> (calls is_CreateIndex tr1 = 1 \<longrightarrow> reportsIndex (describeIndex w 1))"
  have d1: "calls is_DescribeIndex tr1 = 1"
    using a createIndexIfNeeded_describes_once [of w n "[]"] by (simp add: calls_simps)
  have c1: "calls is_CreateIndex tr1 \<le> 1"
    using a createIndexIfNeeded_creates_at_most_once [of w n "[]"] by (simp add: calls_simps)
  show "calls is_CreateIndex tr2 \<le> 1"
  proof (cases "calls is_CreateIndex tr1 = 1")
    case True
    then have "reportsIndex (describeIndex w (calls is_DescribeIndex tr1))"
      using a d1 by simp
    then have "createIndexIfNeeded w m tr1 = (Inr True, tr1 @ [DescribeIndex])"
      by (rule createIndexIfNeeded_exists)
    then show ?thesis using a True by (auto simp: calls_append calls_simps)
  next
    case False
    then have "calls is_CreateIndex tr1 = 0" using c1 by simp
    then show ?thesis
      using a createIndexIfNeeded_creates_at_most_once [of w m tr1] by simp
  qed
qed

theorem createIndexIfNeeded_idempotent_witness:
  "reportsIndex (describeIndex readyWorld (calls is_DescribeIndex [DescribeIndex]))
   \<and> createIndexIfNeeded readyWorld 10 [DescribeIndex] = (Inr True, [DescribeIndex, DescribeIndex])
   \<and> reportsIndex (describeIndex readyWorld 1)
   \<and> calls is_CreateIndex
        (snd (createIndexIfNeeded readyWorld 10 (snd (createIndexIfNeeded readyWorld 10 [])))) \<le> 1"
proof -
  have h1: "reportsIndex (describeIndex readyWorld (calls is_DescribeIndex [DescribeIndex]))"
    by (simp add: readyWorld_def idleWorld_def reportsIndex_def calls_def)
  have h2: "reportsIndex (describeIndex readyWorld 1)"
    by (simp add: readyWorld_def idleWorld_def reportsIndex_def)
  note t = createIndexIfNeeded_idempotent [of readyWorld "[DescribeIndex]" 10 10]
  have a: "createIndexIfNeeded readyWorld 10 [DescribeIndex] = (Inr True, [DescribeIndex, DescribeIndex])"
    using t h1 by simp
  have "\<forall>res1 tr1 res2 tr2.
        createIndexIfNeeded readyWorld 10 [] = (res1, tr1)
        \<and> createIndexIfNeeded readyWorld 10 tr1 = (res2, tr2)
        \<and> (calls is_CreateIndex tr1 = 1 \<longrightarrow> reportsIndex (describeIndex readyWorld 1))
        \<longrightarrow> calls is_CreateIndex tr2 \<le> 1"
    using t by (rule conjunct2)
  then have b: "calls is_CreateIndex
        (snd (createIndexIfNeeded readyWorld 10 (snd (createIndexIfNeeded readyWorld 10 [])))) \<le> 1"
    using h2 by (metis prod.collapse)
  show ?thesis using h1 h2 a b by simp
qed

lemma blindWorld_run:
  "createIndexIfNeeded blindWorld 10 tr
     = (Inr True, tr @ [DescribeIndex, CreateIndex 5, GetIndexState])"
  by (simp add: createIndexIfNeeded_def blindWorld_def idleWorld_def pollIndexState.simps
      MAX_INDEX_WAIT_TIME_def MAX_RETRIES_def nlist_def)

lemma rejectOnceWorld_first:
  "createIndexIfNeeded rejectOnceWorld 10 []
     = (Inl (Error ''create failed''), [DescribeIndex, CreateIndex 5])"
  by (simp add: createIndexIfNeeded_def rejectOnceWorld_def idleWorld_def calls_def nlist_def)

lemma rejectOnceWorld_second:
  "createIndexIfNeeded rejectOnceWorld 10 [DescribeIndex, CreateIndex 5]
     = (Inr True, [DescribeIndex, CreateIndex 5, DescribeIndex, CreateIndex 5, GetIndexState])"
  by (simp add: createIndexIfNeeded_def rejectOnceWorld_def idleWorld_def calls_def nlist_def
      pollIndexState.simps MAX_INDEX_WAIT_TIME_def MAX_RETRIES_def)

text \<open>
  Claim C8 as stated says that two calls in succession make at most one creation call,
  whatever the store does. With a store whose describe call is rejected, each call catches
  that, reads it as "no index" and requests the creation: both calls return \<open>true\<close> and there
  are two creation calls. With a store that reports no index and rejects the first creation
  call, the second call requests the creation again.
\<close>

theorem createIndexIfNeeded_twice_counterexample:
  "createIndexIfNeeded blindWorld 10 [] = (Inr True, [DescribeIndex, CreateIndex 5, GetIndexState])
   \<and> createIndexIfNeeded blindWorld 10 (snd (createIndexIfNeeded blindWorld 10 []))
       = (Inr True, [DescribeIndex, CreateIndex 5, GetIndexState,
                     DescribeIndex, CreateIndex 5, GetIndexState])
   \<and> calls is_CreateIndex
        (snd (createIndexIfNeeded blindWorld 10 (snd (createIndexIfNeeded blindWorld 10 [])))) = 2
   \<and> calls is_CreateIndex
        (snd (createIndexIfNeeded rejectOnceWorld 10
               (snd (createIndexIfNeeded rejectOnceWorld 10 [])))) = 2"
  by (simp add: blindWorld_run rejectOnceWorld_first rejectOnceWorld_second calls_def)

section \<open>Properties of the insert step\<close>

lemma insertLoop_prefix:
  "\<exists>m. snd (insertLoop w xs i tr) = tr @ map Insert (take m (chunks 1000 (drop i xs)))"
proof (induction w xs i tr rule: insertLoop.induct)
  case (1 w xs i tr)
  show ?case
  proof (cases "i < length xs")
    case False
    then have "snd (insertLoop w xs i tr) = tr"
      by (subst insertLoop.simps) simp
    then show ?thesis by (intro exI [of _ 0]) simp
  next
    case True
    let ?batch = "slice xs (int i) (int i + 1000)"
    have b: "?batch = take 1000 (drop i xs)"
      using slice_take_drop [of "int i" 1000 xs] by simp
    have nz: "drop i xs \<noteq> []" using True by simp
    have c: "chunks 1000 (drop i xs) = take 1000 (drop i xs) # chunks 1000 (drop (i + 1000) xs)"
      using nz by (subst chunks.simps) (simp add: add.commute)
    show ?thesis
    proof (cases "insertRows w (calls is_Insert tr)")
      case (Inl e)
      then have "snd (insertLoop w xs i tr) = tr @ [Insert ?batch]"
        using True by (subst insertLoop.simps) simp
      then show ?thesis
        by (intro exI [of _ 1]) (simp add: c b)
    next
      case (Inr u)
      obtain m where m: "snd (insertLoop w xs (i + 1000) (tr @ [Insert ?batch]))
          = (tr @ [Insert ?batch]) @ map Insert (take m (chunks 1000 (drop (i + 1000) xs)))"
        using 1 [OF True refl Inr] by blast
      have "insertLoop w xs i tr = insertLoop w xs (i + 1000) (tr @ [Insert ?batch])"
        using True Inr by (subst insertLoop.simps) simp
      then show ?thesis
        using m by (intro exI [of _ "Suc m"]) (simp add: c b)
    qed
  qed
qed

lemma insertLoop_all:
  "\<forall>k. insertRows w k = Inr () \<Longrightarrow>
   insertLoop w xs i tr = (Inr (), tr @ map Insert (chunks 1000 (drop i xs)))"
proof (induction w xs i tr rule: insertLoop.induct)
  case (1 w xs i tr)
  show ?case
  proof (cases "i < length xs")
    case False
    then show ?thesis
      by (subst insertLoop.simps) (simp add: chunks_Nil)
  next
    case True
    let ?batch = "slice xs (int i) (int i + 1000)"
    have b: "?batch = take 1000 (drop i xs)"
      using slice_take_drop [of "int i" 1000 xs] by simp
    have nz: "drop i xs \<noteq> []" using True by simp
    have c: "chunks 1000 (drop i xs) = take 1000 (drop i xs) # chunks 1000 (drop (i + 1000) xs)"
      using nz by (subst chunks.simps) (simp add: add.commute)
    have ok: "insertRows w (calls is_Insert tr) = Inr ()" using "1.prems" by simp
    have "insertLoop w xs (i + 1000) (tr @ [Insert ?batch])
        = (Inr (), (tr @ [Insert ?batch]) @ map Insert (chunks 1000 (drop (i + 1000) xs)))"
      using "1.IH" [OF True refl ok "1.prems"] .
    moreover have "insertLoop w xs i tr = insertLoop w xs (i + 1000) (tr @ [Insert ?batch])"
      using True ok by (subst insertLoop.simps) simp
    ultimately show ?thesis
      by (simp add: c b)
  qed
qed

lemma chunks_all_le: "\<forall>b \<in> set (chunks 1000 xs). length b \<le> 1000"
  using chunks_length_le [of 1000 _ xs] by auto

lemma chunks_small: "xs \<noteq> [] \<Longrightarrow> length xs \<le> n \<Longrightarrow> chunks n xs = [xs]"
  by (subst chunks.simps, cases xs) (auto simp: chunks_Nil)

text \<open>
  Claim C9. For a non-empty record sequence the insert step adds nothing but insert calls to
  the effects; every one of them carries between 1 and 1000 records, and the batches sent,
  in order, make up an initial part of the records. The calls are sequential: the loop makes
  a call only once the one before it was accepted. When every insert call is accepted the
  step completes and the batches in order make up the whole sequence, every record once.
  (A rejected call ends the step with that error.)
\<close>

theorem insertEmbeddings_batches:
  assumes "embeddingsToInsert \<noteq> []"
  shows "\<exists>sent. snd (insertEmbeddings w embeddingsToInsert tr) = tr @ map Insert sent
    \<and> (\<forall>b \<in> set sent. 0 < length b \<and> length b \<le> 1000)
    \<and> (\<exists>rest. concat sent @ rest = embeddingsToInsert)
    \<and> ((\<forall>k. insertRows w k = Inr ()) \<longrightarrow>
          fst (insertEmbeddings w embeddingsToInsert tr) = Inr ()
          \<and> concat sent = embeddingsToInsert)"
proof -
  let ?xs = embeddingsToInsert
  obtain m where m: "snd (insertEmbeddings w ?xs tr) = tr @ map Insert (take m (chunks 1000 ?xs))"
  proof (cases "length ?xs > 1000")
    case True
    then show ?thesis
      using insertLoop_prefix [of w ?xs 0 tr] that by (auto simp: insertEmbeddings_def)
  next
    case False
    then have "snd (insertEmbeddings w ?xs tr) = tr @ map Insert (take 1 (chunks 1000 ?xs))"
      using assms by (simp add: insertEmbeddings_def chunks_small split: sum.splits)
    then show ?thesis using that by blast
  qed
  define sent where "sent = take m (chunks 1000 ?xs)"
  have full: "concat (chunks 1000 ?xs) = ?xs"
    by (simp add: concat_chunks)
  have pos: "\<forall>b \<in> set (chunks 1000 ?xs). 0 < length b"
  proof
    fix b assume "b \<in> set (chunks 1000 ?xs)"
    then show "0 < length b"
      by (induction "1000::nat" ?xs rule: chunks.induct)
        (subst (asm) chunks.simps, auto split: if_splits)
  qed
  have 1: "\<forall>b \<in> set sent. 0 < length b \<and> length b \<le> 1000"
    using pos chunks_all_le [of ?xs] by (auto simp: sent_def dest: in_set_takeD)
  have "concat (take m (chunks 1000 ?xs)) @ concat (drop m (chunks 1000 ?xs)) = ?xs"
    using full by (metis append_take_drop_id concat_append)
  then have 2: "\<exists>rest. concat sent @ rest = ?xs"
    by (auto simp: sent_def)
  have 3: "fst (insertEmbeddings w ?xs tr) = Inr () \<and> concat sent = ?xs"
    if ok: "\<forall>k. insertRows w k = Inr ()"
  proof -
    have "insertEmbeddings w ?xs tr = (Inr (), tr @ map Insert (chunks 1000 ?xs))"
    proof (cases "length ?xs > 1000")
      case True
      then show ?thesis using insertLoop_all [OF ok, of ?xs 0 tr]
        by (simp add: insertEmbeddings_def)
    next
      case False
      then show ?thesis using assms ok
        by (simp add: insertEmbeddings_def chunks_small)
    qed
    then have "map Insert sent = map Insert (chunks 1000 ?xs)"
      using m by (simp add: sent_def)
    then have "sent = chunks 1000 ?xs"
      by (simp add: inj_map_eq_map inj_on_def)
    then show ?thesis
      using \<open>insertEmbeddings w ?xs tr = (Inr (), tr @ map Insert (chunks 1000 ?xs))\<close> full
      by simp
  qed
  show ?thesis
    using m 1 2 3 unfolding sent_def [symmetric] by blast
qed

theorem insertEmbeddings_batches_witness:
  "replicate 2500 sampleRecord \<noteq> [] \<and> (\<forall>k. insertRows idleWorld k = Inr ())
   \<and> (\<exists>sent. insertEmbeddings idleWorld (replicate 2500 sampleRecord) [HasCollection]
              = (Inr (), HasCollection # map Insert sent)
         \<and> concat sent = replicate 2500 sampleRecord
         \<and> list_all (\<lambda>b. length b \<le> 1000) sent)"
proof -
  have h1: "replicate 2500 sampleRecord \<noteq> []" by simp
  have h2: "\<forall>k. insertRows idleWorld k = Inr ()" by (simp add: idleWorld_def)
  obtain sent where
    a: "snd (insertEmbeddings idleWorld (replicate 2500 sampleRecord) [HasCollection])
          = [HasCollection] @ map Insert sent"
    and b: "\<forall>b \<in> set sent. 0 < length b \<and> length b \<le> 1000"
    and c: "(\<forall>k. insertRows idleWorld k = Inr ()) \<longrightarrow>
          fst (insertEmbeddings idleWorld (replicate 2500 sampleRecord) [HasCollection]) = Inr ()
          \<and> concat sent = replicate 2500 sampleRecord"
    using insertEmbeddings_batches [OF h1, of idleWorld "[HasCollection]"] by blast
  have "insertEmbeddings idleWorld (replicate 2500 sampleRecord) [HasCollection]
          = (Inr (), HasCollection # map Insert sent)"
    using a c h2 by (simp add: prod_eq_iff)
  moreover have "list_all (\<lambda>b. length b \<le> 1000) sent"
    using b by (simp add: list_all_iff)
  ultimately show ?thesis
    using h1 h2 c by blast
qed

section \<open>Properties of POST\<close>

lemma successes_all_Inr: "successes (\<lambda>x. Inr (f x)) xs = map f xs"
  by (induction xs) (simp_all add: successes_def List.map_filter_simps)

lemma allEmbeddings_eq:
  "allEmbeddings w sid codeFiles
     = (case those (map (\<lambda>file. processCodeFileContent w file sid) codeFiles) of
          None \<Rightarrow> None | Some perFile \<Rightarrow> Some (concat perFile))"
proof -
  have h: "1 \<le> MAX_CONCURRENT_FILES" by (simp add: MAX_CONCURRENT_FILES_def)
  have "concat (chunks (nat MAX_CONCURRENT_FILES) codeFiles) = codeFiles"
    using h by (simp add: concat_chunks)
  then show ?thesis
    by (simp add: allEmbeddings_def processConcurrently_run [OF h] fold_runBatch_fields
        successes_all_Inr)
qed

lemma processCodeFileContent_zero:
  "zeroChunks w file \<Longrightarrow> processCodeFileContent w file sid = Some []"
  by (auto simp: zeroChunks_def processCodeFileContent_def Let_def split: sum.splits)

lemma those_all_empty: "\<forall>x \<in> set xs. f x = Some [] \<Longrightarrow> those (map f xs) = Some (map (\<lambda>x. []) xs)"
  by (induction xs) simp_all

lemma allEmbeddings_zero:
  assumes "\<forall>file \<in> set codeFiles. zeroChunks w file"
  shows "allEmbeddings w sid codeFiles = Some []"
proof -
  have "those (map (\<lambda>file. processCodeFileContent w file sid) codeFiles)
      = Some (map (\<lambda>x. []) codeFiles)"
    using assms by (intro those_all_empty) (simp add: processCodeFileContent_zero)
  then show ?thesis by (simp add: allEmbeddings_eq)
qed

text \<open>
  Claim C3, amended. For a request with a session id and a file array whose flattened
  embedding sequence is empty (as it is when every file yields zero chunks), POST makes no
  call to the vector store, so no insert, and returns without throwing: status 400 and the
  body \<open>{message, details, processingTime}\<close>. The body has no \<open>success\<close> property.
\<close>

theorem POST_no_embeddings:
  assumes "sid \<noteq> []"
    and "allEmbeddings w sid codeFiles = Some []"
  shows "POST w (Inr \<lparr>req_sessionId = Some sid, req_codeFiles = Some codeFiles\<rparr>)
       = Some (\<lparr>status = 400,
                body = [(''message'', JStr ''No embeddings could be generated''),
                        (''details'', JStr ''Check file contents and embedding generation''),
                        (''processingTime'', num (now w 1 - now w 0))]\<rparr>,
               [])
    \<and> ((\<forall>file \<in> set codeFiles. zeroChunks w file) \<longrightarrow> allEmbeddings w sid codeFiles = Some [])"
  using assms by (simp add: POST_def allEmbeddings_zero)

theorem POST_no_embeddings_witness:
  "''s1'' \<noteq> []
   \<and> allEmbeddings idleWorld ''s1'' [\<lparr>path = ''a.py'', extension = Some ''.py'', content = Some ''''\<rparr>]
       = Some []
   \<and> POST idleWorld (Inr \<lparr>req_sessionId = Some ''s1'',
                           req_codeFiles = Some [\<lparr>path = ''a.py'', extension = Some ''.py'',
                                                  content = Some ''''\<rparr>]\<rparr>)
       = Some (\<lparr>status = 400,
                body = [(''message'', JStr ''No embeddings could be generated''),
                        (''details'', JStr ''Check file contents and embedding generation''),
                        (''processingTime'', JNum (Finite 1000))]\<rparr>,
               [])"
proof -
  let ?files = "[\<lparr>path = ''a.py'', extension = Some ''.py'', content = Some ''''\<rparr>]"
  have h1: "''s1'' \<noteq> []" by simp
  have h2: "allEmbeddings idleWorld ''s1'' ?files = Some []"
    by (rule allEmbeddings_zero) (simp add: zeroChunks_def idleWorld_def)
  show ?thesis
    using h1 h2 POST_no_embeddings [OF h1 h2]
    by (simp add: num_def idleWorld_def)
qed

text \<open>
  Claim C3 as stated asks for a body of the shape \<open>{success: false, message}\<close>. For a request
  with no files the body is the following, in which \<open>success\<close> is not a property.
\<close>

theorem POST_no_embeddings_counterexample:
  "POST idleWorld (Inr \<lparr>req_sessionId = Some ''s1'', req_codeFiles = Some []\<rparr>)
     = Some (\<lparr>status = 400,
              body = [(''message'', JStr ''No embeddings could be generated''),
                      (''details'', JStr ''Check file contents and embedding generation''),
                      (''processingTime'', JNum (Finite 1000))]\<rparr>,
             [])
   \<and> map_of [(''message'', JStr ''No embeddings could be generated''),
              (''details'', JStr ''Check file contents and embedding generation''),
              (''processingTime'', JNum (Finite 1000))] ''success'' = None"
proof -
  have "allEmbeddings idleWorld ''s1'' [] = Some []"
    by (simp add: allEmbeddings_eq)
  then show ?thesis
    by (simp add: POST_def num_def idleWorld_def)
qed

section \<open>Properties of the search functions\<close>



text \<open>The session id is pasted between the quotes as it is. An id with a double quote in it
  gives an expression that is no longer the equality on that id.\<close>

lemma filter_expr_unescaped:
  "filter_expr (zillizSearchRequest v ''a\" || sessionId != \"'' l)
     = ''sessionId == \"a\" || sessionId != \"\"''"
  "filter_expr (milvusSearchRequest v ''a\" || sessionId != \"'' l)
     = ''sessionId == \"a\" || sessionId != \"\"''"
  "filterSession ''sessionId == \"a\" || sessionId != \"\"'' = None"
  by (simp_all add: zillizSearchRequest_def milvusSearchRequest_def filterSession_def plainId_def)










end
